theory Spec2Isabelle
  imports Main "HOL-Library.Product_Lexorder"
begin

section \<open>The JavaScript runtime, as far as \<^verbatim>\<open>useAsyncFlow.ts\<close> uses it\<close>

text \<open>
  Values that a task can throw or reject with: \<^verbatim>\<open>undefined\<close> (the value of an
  uninitialised \<^verbatim>\<open>let\<close>) and \<^verbatim>\<open>new Error(msg)\<close>.
\<close>

datatype thrown = Undefined | NewError string

text \<open>
  The instant at which something happens, counted from the moment of the call that waits
  for it: the millisecond, and the turn of the event loop within that millisecond. Pairs
  are ordered lexicographically, so two timers that expire in the same millisecond are
  told apart by their turns (the timer created first fires first). Turn \<open>0\<close> of
  millisecond \<open>0\<close> is "already settled when handed over".
\<close>

type_synonym instant = "nat \<times> nat"

text \<open>
  A promise, seen from the moment it is handed to the code that waits for it: either it
  never settles, or it settles at an instant, rejected (\<open>Inl\<close>) or fulfilled (\<open>Inr\<close>).
\<close>

datatype 'v promise = Never | Settles instant "thrown + 'v"

text \<open>
  A caller-supplied task function \<^verbatim>\<open>() => Promise<T>\<close>. Its synchronous part may change
  the environment \<open>'e\<close> (everything outside this module: the abort controller, the
  application's own state); it returns the promise.
\<close>

type_synonym ('e, 'v) task = "'e \<Rightarrow> 'v promise \<times> 'e"

text \<open>
  What the rest of the program does to the environment while the caller is suspended in an
  \<^verbatim>\<open>await\<close> for the given number of milliseconds (other event-loop turns: the asynchronous
  parts of tasks, a \<^verbatim>\<open>cancel()\<close> from the user interface, a superseding run).
\<close>

type_synonym 'e host = "nat \<Rightarrow> 'e \<Rightarrow> 'e"

text \<open>Instrumentation: which task was invoked, and what an awaited task settled with.\<close>

datatype 'v event = Invoke nat | Settle nat "thrown + 'v"

text \<open>
  \<open>now\<close> is the clock in milliseconds; \<open>timers\<close> holds the pending timers of this module
  (handle, milliseconds left); \<open>timer_turn\<close> is the turn, within its millisecond of expiry,
  at which a timer created now will fire (it depends on the timers the rest of the program
  has pending).
\<close>

record ('e, 'v) world =
  env :: 'e
  now :: nat
  timers :: "(nat \<times> nat) list"
  next_timer :: nat
  timer_turn :: nat
  trace :: "'v event list"

text \<open>
  The delay that the runtime gives a timer: the argument is taken as a signed 32-bit
  number of milliseconds, and a delay of \<open>2\<^sup>3\<^sup>1\<close> or more becomes 1 ms.
\<close>

definition timer_delay :: "nat \<Rightarrow> nat" where
  "timer_delay ms = (if ms < 2147483648 then ms else 1)"

text \<open>\<^verbatim>\<open>setTimeout(cb, ms)\<close>: a new pending timer (handle, milliseconds left); returns the handle.\<close>

definition setTimeout :: "nat \<Rightarrow> ('e, 'v) world \<Rightarrow> nat \<times> ('e, 'v) world" where
  "setTimeout ms w =
     (next_timer w,
      w\<lparr>timers := timers w @ [(next_timer w, timer_delay ms)], next_timer := Suc (next_timer w)\<rparr>)"

text \<open>\<^verbatim>\<open>clearTimeout(timer)\<close>: the timer is no longer pending; no effect on a timer that has fired.\<close>

definition clearTimeout :: "nat \<Rightarrow> ('e, 'v) world \<Rightarrow> ('e, 'v) world" where
  "clearTimeout timer w = w\<lparr>timers := filter (\<lambda>(h, r). h \<noteq> timer) (timers w)\<rparr>"

text \<open>
  The event loop runs for \<open>d\<close> milliseconds: the host acts on the environment, the timers
  that are due fire (and are no longer pending), the others have \<open>d\<close> milliseconds less left.
\<close>

definition elapse :: "'e host \<Rightarrow> nat \<Rightarrow> ('e, 'v) world \<Rightarrow> ('e, 'v) world" where
  "elapse host d w =
     w\<lparr>env := host d (env w), now := now w + d,
       timers := map (\<lambda>(h, r). (h, r - d)) (filter (\<lambda>(h, r). d < r) (timers w))\<rparr>"

text \<open>\<^verbatim>\<open>await p\<close>: \<open>None\<close> when the promise never settles (the caller is suspended for ever).\<close>

definition await :: "'e host \<Rightarrow> 'a promise \<Rightarrow> ('e, 'v) world \<Rightarrow> ((thrown + 'a) \<times> ('e, 'v) world) option" where
  "await host p w = (case p of Never \<Rightarrow> None | Settles i r \<Rightarrow> Some (r, elapse host (fst i) w))"

text \<open>The call \<^verbatim>\<open>task()\<close>, recorded in the trace under the index \<open>i\<close>.\<close>

definition call :: "('e, 'a) task \<Rightarrow> nat \<Rightarrow> ('e, 'v) world \<Rightarrow> 'a promise \<times> ('e, 'v) world" where
  "call task i w = (case task (env w) of (p, e) \<Rightarrow> (p, w\<lparr>env := e, trace := trace w @ [Invoke i]\<rparr>))"

definition emit :: "'v event \<Rightarrow> ('e, 'v) world \<Rightarrow> ('e, 'v) world" where
  "emit ev w = w\<lparr>trace := trace w @ [ev]\<rparr>"

text \<open>
  \<^verbatim>\<open>Promise.all\<close>: rejected with the reason of the promise that rejects at the earliest
  instant (promises at the same instant are ones that were settled already, and are taken
  in the order in which \<^verbatim>\<open>Promise.all\<close> subscribed to them); fulfilled with the values in
  input order once all are fulfilled; pending for ever otherwise.
\<close>

fun first_rejection :: "'v promise list \<Rightarrow> (instant \<times> thrown) option" where
  "first_rejection [] = None"
| "first_rejection (Settles d (Inl e) # ps) =
     (case first_rejection ps of
        None \<Rightarrow> Some (d, e)
      | Some (d', e') \<Rightarrow> if d' < d then Some (d', e') else Some (d, e))"
| "first_rejection (p # ps) = first_rejection ps"

fun all_fulfilled :: "'v promise list \<Rightarrow> (instant \<times> 'v list) option" where
  "all_fulfilled [] = Some ((0, 0), [])"
| "all_fulfilled (Settles d (Inr v) # ps) =
     (case all_fulfilled ps of None \<Rightarrow> None | Some (d', vs) \<Rightarrow> Some (max d d', v # vs))"
| "all_fulfilled (p # ps) = None"

definition Promise_all :: "'v promise list \<Rightarrow> 'v list promise" where
  "Promise_all ps =
     (case first_rejection ps of
        Some (d, e) \<Rightarrow> Settles d (Inl e)
      | None \<Rightarrow> (case all_fulfilled ps of Some (d, vs) \<Rightarrow> Settles d (Inr vs) | None \<Rightarrow> Never))"

text \<open>
  \<^verbatim>\<open>Promise.race\<close> of a non-empty array: settles as the promise with the earliest instant
  does (the earlier array element among promises that were settled already).
\<close>

fun earlier :: "'v promise \<Rightarrow> 'v promise \<Rightarrow> 'v promise" where
  "earlier Never q = q"
| "earlier p Never = p"
| "earlier (Settles d r) (Settles d' r') = (if d' < d then Settles d' r' else Settles d r)"

fun Promise_race :: "'v promise \<Rightarrow> 'v promise list \<Rightarrow> 'v promise" where
  "Promise_race p [] = p"
| "Promise_race p (q # qs) = Promise_race (earlier p q) qs"

section \<open>The module-level helpers\<close>

definition DEFAULT_RETRIES :: int where
  "DEFAULT_RETRIES = 3"

definition DEFAULT_DELAY_MS :: nat where
  "DEFAULT_DELAY_MS = 300"

text \<open>
  \<^verbatim>\<open>const delay = (ms) => new Promise((res) => setTimeout(res, ms))\<close>, awaited: the timer is
  set, the caller is suspended until it fires.
\<close>

definition delay :: "'e host \<Rightarrow> nat \<Rightarrow> ('e, 'v) world \<Rightarrow> ('e, 'v) world" where
  "delay host ms w = (case setTimeout ms w of (timer, w1) \<Rightarrow> elapse host (timer_delay ms) w1)"

text \<open>
  \<^verbatim>\<open>pTimeout(p, ms)\<close>: the timer rejects the promise \<^verbatim>\<open>timeout\<close> with \<^verbatim>\<open>new Error("timeout")\<close>
  when it fires; the race of \<open>p\<close> and \<^verbatim>\<open>timeout\<close> is awaited; the \<^verbatim>\<open>finally\<close> block clears
  the timer on either outcome.
\<close>

definition pTimeout :: "'e host \<Rightarrow> 'a promise \<Rightarrow> nat \<Rightarrow> ('e, 'v) world \<Rightarrow> ((thrown + 'a) \<times> ('e, 'v) world) option" where
  "pTimeout host p ms w =
     (case setTimeout ms w of (timer, w1) \<Rightarrow>
        (case await host (Promise_race p [Settles (timer_delay ms, timer_turn w) (Inl (NewError ''timeout''))]) w1 of
           None \<Rightarrow> None
         | Some (r, w2) \<Rightarrow> Some (r, clearTimeout timer w2)))"

section \<open>\<^verbatim>\<open>makeSpawn(signal)\<close>: the combinators\<close>

text \<open>
  Every combinator takes \<open>signal\<close>, the reading of \<^verbatim>\<open>signal.aborted\<close> in the current
  environment, as \<^verbatim>\<open>makeSpawn\<close> does. The result is what the caller that awaits the
  combinator's promise observes: \<open>None\<close> when it is suspended for ever, else the
  rejection (\<open>Inl\<close>) or the value (\<open>Inr\<close>), and the world at that moment.
\<close>

text \<open>\<^verbatim>\<open>tasks.map((task) => signal.aborted ? Promise.reject(new Error("aborted")) : task())\<close>\<close>

fun dispatch :: "('e \<Rightarrow> bool) \<Rightarrow> ('e, 'a) task list \<Rightarrow> nat \<Rightarrow> ('e, 'v) world \<Rightarrow> 'a promise list \<times> ('e, 'v) world" where
  "dispatch signal [] i w = ([], w)"
| "dispatch signal (task # tasks) i w =
     (case (if signal (env w) then (Settles (0, 0) (Inl (NewError ''aborted'')), w) else call task i w) of
        (p, w1) \<Rightarrow> (case dispatch signal tasks (Suc i) w1 of (ps, w2) \<Rightarrow> (p # ps, w2)))"

definition parallel :: "('e \<Rightarrow> bool) \<Rightarrow> 'e host \<Rightarrow> ('e, 'a) task list \<Rightarrow> ('e, 'v) world \<Rightarrow> ((thrown + 'a list) \<times> ('e, 'v) world) option" where
  "parallel signal host tasks w =
     (case dispatch signal tasks 0 w of (ps, w1) \<Rightarrow> await host (Promise_all ps) w1)"

text \<open>The \<^verbatim>\<open>for (const task of tasks)\<close> loop of \<^verbatim>\<open>sequence\<close>; \<open>i\<close> is the index of the next task.\<close>

fun sequence_loop :: "('e \<Rightarrow> bool) \<Rightarrow> 'e host \<Rightarrow> ('e, 'v) task list \<Rightarrow> nat \<Rightarrow> 'v list \<Rightarrow> ('e, 'v) world \<Rightarrow> ((thrown + 'v list) \<times> ('e, 'v) world) option" where
  "sequence_loop signal host [] i results w = Some (Inr results, w)"
| "sequence_loop signal host (task # tasks) i results w =
     (if signal (env w) then Some (Inl (NewError ''aborted''), w)
      else case call task i w of (p, w1) \<Rightarrow>
        (case await host p w1 of
           None \<Rightarrow> None
         | Some (Inl e, w2) \<Rightarrow> Some (Inl e, emit (Settle i (Inl e)) w2)
         | Some (Inr v, w2) \<Rightarrow>
             sequence_loop signal host tasks (Suc i) (results @ [v]) (emit (Settle i (Inr v)) w2)))"

definition sequence :: "('e \<Rightarrow> bool) \<Rightarrow> 'e host \<Rightarrow> ('e, 'v) task list \<Rightarrow> ('e, 'v) world \<Rightarrow> ((thrown + 'v list) \<times> ('e, 'v) world) option" where
  "sequence signal host tasks w = sequence_loop signal host tasks 0 [] w"

text \<open>
  The \<^verbatim>\<open>for (let attempt = 0; attempt < retries; attempt++)\<close> loop of \<^verbatim>\<open>retry\<close>, with
  \<^verbatim>\<open>lastError\<close> as loop state, and the \<^verbatim>\<open>throw lastError\<close> after it.
\<close>

function retry_loop :: "('e \<Rightarrow> bool) \<Rightarrow> 'e host \<Rightarrow> ('e, 'v) task \<Rightarrow> int \<Rightarrow> nat \<Rightarrow> int \<Rightarrow> thrown \<Rightarrow> ('e, 'v) world \<Rightarrow> ((thrown + 'v) \<times> ('e, 'v) world) option" where
  "retry_loop signal host fn retries delayMs attempt lastError w =
     (if attempt < retries then
        if signal (env w) then Some (Inl (NewError ''aborted''), w)
        else case call fn (nat attempt) w of (p, w1) \<Rightarrow>
          (case await host p w1 of
             None \<Rightarrow> None
           | Some (Inr v, w2) \<Rightarrow> Some (Inr v, emit (Settle (nat attempt) (Inr v)) w2)
           | Some (Inl error, w2) \<Rightarrow>
               retry_loop signal host fn retries delayMs (attempt + 1) error
                 (if attempt < retries - 1
                  then delay host delayMs (emit (Settle (nat attempt) (Inl error)) w2)
                  else emit (Settle (nat attempt) (Inl error)) w2))
      else Some (Inl lastError, w))"
  by pat_completeness auto
termination
  by (relation "measure (\<lambda>(signal, host, fn, retries, delayMs, attempt, lastError, w). nat (retries - attempt))") auto

text \<open>\<^verbatim>\<open>retry(fn, retries = DEFAULT_RETRIES, delayMs = DEFAULT_DELAY_MS)\<close>; \<open>None\<close> is an omitted argument.\<close>

definition retry :: "('e \<Rightarrow> bool) \<Rightarrow> 'e host \<Rightarrow> ('e, 'v) task \<Rightarrow> int option \<Rightarrow> nat option \<Rightarrow> ('e, 'v) world \<Rightarrow> ((thrown + 'v) \<times> ('e, 'v) world) option" where
  "retry signal host fn retries delayMs w =
     retry_loop signal host fn
       (case retries of None \<Rightarrow> DEFAULT_RETRIES | Some n \<Rightarrow> n)
       (case delayMs of None \<Rightarrow> DEFAULT_DELAY_MS | Some d \<Rightarrow> d)
       0 Undefined w"

text \<open>\<^verbatim>\<open>timeout: (fn, ms) => pTimeout(fn(), ms)\<close>\<close>

definition timeout :: "'e host \<Rightarrow> ('e, 'a) task \<Rightarrow> nat \<Rightarrow> ('e, 'v) world \<Rightarrow> ((thrown + 'a) \<times> ('e, 'v) world) option" where
  "timeout host fn ms w = (case call fn 0 w of (p, w1) \<Rightarrow> pTimeout host p ms w1)"

section \<open>The hook \<^verbatim>\<open>useAsyncFlow\<close>\<close>

datatype status = Idle | Running | Success | Error | Cancelled

text \<open>
  Calls of the optional callbacks \<^verbatim>\<open>onError?.(err)\<close> and \<^verbatim>\<open>onFinally?.()\<close>, tagged with the
  abort controller of the run that made them. The callbacks are taken as supplied and as
  returning normally.
\<close>

datatype callback = OnError nat thrown | OnFinally nat

text \<open>
  The state behind one hook instance. \<open>status\<close>, \<open>result\<close> and \<open>error\<close> are the three
  \<^verbatim>\<open>useState\<close> cells, holding the value last handed to their setter (\<open>None\<close> is \<^verbatim>\<open>null\<close>);
  \<open>abortControllerRef\<close> and \<open>isMountedRef\<close> are the two refs. Abort controllers are
  numbered in the order of their creation: \<open>controllers\<close> counts them, \<open>aborted\<close> holds
  those whose \<^verbatim>\<open>signal.aborted\<close> is true. \<open>awaiting\<close> holds the runs suspended in
  \<^verbatim>\<open>await Promise.resolve(run(context))\<close>. The \<^verbatim>\<open>dev\<close> logging changes no state and is left
  out.
\<close>

record 'v flow =
  status :: status
  result :: "'v option"
  error :: "thrown option"
  abortControllerRef :: "nat option"
  isMountedRef :: bool
  aborted :: "nat list"
  controllers :: nat
  awaiting :: "nat list"
  callbacks :: "callback list"

text \<open>The state at the first render.\<close>

definition useAsyncFlow :: "'v flow" where
  "useAsyncFlow =
     \<lparr>status = Idle, result = None, error = None, abortControllerRef = None,
      isMountedRef = True, aborted = [], controllers = 0, awaiting = [], callbacks = []\<rparr>"

text \<open>\<^verbatim>\<open>abortControllerRef.current?.abort()\<close>\<close>

definition abort_current :: "'v flow \<Rightarrow> 'v flow" where
  "abort_current h =
     (case abortControllerRef h of
        None \<Rightarrow> h
      | Some c \<Rightarrow> h\<lparr>aborted := List.insert c (aborted h)\<rparr>)"

text \<open>
  \<^verbatim>\<open>executeRun\<close> up to its \<^verbatim>\<open>await\<close>: the previous run is aborted, a new controller is
  created and stored in the ref, the state is reset, the task is started. Returns the new
  controller, which identifies the run.
\<close>

definition executeRun_start :: "'v flow \<Rightarrow> nat \<times> 'v flow" where
  "executeRun_start h =
     (let h1 = abort_current h;
          abortController = controllers h1;
          h2 = h1\<lparr>controllers := Suc abortController, abortControllerRef := Some abortController\<rparr>;
          h3 = h2\<lparr>status := Running, error := None, result := None\<rparr>
      in (abortController, h3\<lparr>awaiting := awaiting h3 @ [abortController]\<rparr>))"

text \<open>\<^verbatim>\<open>context.cancelled()\<close>: \<^verbatim>\<open>abortController.signal.aborted || !isMountedRef.current\<close>\<close>

definition cancelled :: "nat \<Rightarrow> 'v flow \<Rightarrow> bool" where
  "cancelled abortController h \<longleftrightarrow> abortController \<in> set (aborted h) \<or> \<not> isMountedRef h"

text \<open>The \<^verbatim>\<open>finally\<close> block of \<^verbatim>\<open>executeRun\<close>; the run is no longer suspended.\<close>

definition executeRun_finally :: "nat \<Rightarrow> 'v flow \<Rightarrow> 'v flow" where
  "executeRun_finally abortController h =
     h\<lparr>callbacks := callbacks h @ [OnFinally abortController],
       abortControllerRef :=
         (if abortControllerRef h = Some abortController then None else abortControllerRef h),
       awaiting := removeAll abortController (awaiting h)\<rparr>"

text \<open>
  \<^verbatim>\<open>executeRun\<close> from its \<^verbatim>\<open>await\<close> on, for the run of \<open>abortController\<close> whose task has
  settled with \<open>outcome\<close>: the \<^verbatim>\<open>try\<close> branch for a value, the \<^verbatim>\<open>catch\<close> branch for a
  rejection (or a synchronous throw of the task), then \<^verbatim>\<open>finally\<close>.
\<close>

definition executeRun_settle :: "nat \<Rightarrow> thrown + 'v \<Rightarrow> 'v flow \<Rightarrow> 'v flow" where
  "executeRun_settle abortController outcome h =
     executeRun_finally abortController
       (case outcome of
          Inr resultValue \<Rightarrow>
            if cancelled abortController h then h\<lparr>status := Cancelled\<rparr>
            else h\<lparr>status := Success, result := Some resultValue\<rparr>
        | Inl err \<Rightarrow>
            if cancelled abortController h then h\<lparr>status := Cancelled\<rparr>
            else h\<lparr>status := Error, error := Some err,
                   callbacks := callbacks h @ [OnError abortController err]\<rparr>)"

text \<open>What the promise returned by \<^verbatim>\<open>run()\<close> resolves with (\<open>None\<close> is \<^verbatim>\<open>undefined\<close>).\<close>

definition executeRun_value :: "nat \<Rightarrow> thrown + 'v \<Rightarrow> 'v flow \<Rightarrow> 'v option" where
  "executeRun_value abortController outcome h =
     (case outcome of
        Inr resultValue \<Rightarrow> if cancelled abortController h then None else Some resultValue
      | Inl err \<Rightarrow> None)"

definition cancel :: "'v flow \<Rightarrow> 'v flow" where
  "cancel h = (abort_current h)\<lparr>abortControllerRef := None, status := Cancelled\<rparr>"

text \<open>The effect that tracks mounting, and its cleanup.\<close>

definition mount :: "'v flow \<Rightarrow> 'v flow" where
  "mount h = h\<lparr>isMountedRef := True\<rparr>"

definition unmount :: "'v flow \<Rightarrow> 'v flow" where
  "unmount h = (abort_current (h\<lparr>isMountedRef := False\<rparr>))\<lparr>abortControllerRef := None\<rparr>"

text \<open>The cleanup of the auto-run effect: \<^verbatim>\<open>() => abortControllerRef.current?.abort()\<close>\<close>

definition deps_cleanup :: "'v flow \<Rightarrow> 'v flow" where
  "deps_cleanup h = abort_current h"

text \<open>
  One turn of the event loop that touches the hook: a call of \<^verbatim>\<open>run()\<close> (by the caller or
  by the auto-run effect), the settlement of the task of a suspended run, \<^verbatim>\<open>cancel()\<close>, or
  an effect of the host component. A run resumes only once: the settlement of a run that
  is not suspended changes nothing.
\<close>

datatype 'v action =
  DoRun | DoSettle nat "thrown + 'v" | DoCancel | DoMount | DoUnmount | DoCleanup

fun step :: "'v action \<Rightarrow> 'v flow \<Rightarrow> 'v flow" where
  "step DoRun h = snd (executeRun_start h)"
| "step (DoSettle c outcome) h = (if c \<in> set (awaiting h) then executeRun_settle c outcome h else h)"
| "step DoCancel h = cancel h"
| "step DoMount h = mount h"
| "step DoUnmount h = unmount h"
| "step DoCleanup h = deps_cleanup h"

definition run_actions :: "'v action list \<Rightarrow> 'v flow \<Rightarrow> 'v flow" where
  "run_actions acts h = fold step acts h"

section \<open>Invariants of the hook\<close>

text \<open>
  Suspended runs hold controllers that exist, and a suspended run whose token is not fired
  is the one in \<open>abortControllerRef\<close>.
\<close>

definition tokens_ok :: "'v flow \<Rightarrow> bool" where
  "tokens_ok h \<longleftrightarrow>
     (\<forall>c\<in>set (awaiting h). c < controllers h) \<and>
     (\<forall>c\<in>set (awaiting h). c \<notin> set (aborted h) \<longrightarrow> abortControllerRef h = Some c)"

text \<open>
  While a run with an unfired token is suspended, and while the status is \<open>Idle\<close> or
  \<open>Running\<close>, \<open>result\<close> and \<open>error\<close> are empty; \<open>Success\<close> excludes an error, \<open>Error\<close> a
  result.
\<close>

definition data_ok :: "'v flow \<Rightarrow> bool" where
  "data_ok h \<longleftrightarrow>
     ((\<exists>c\<in>set (awaiting h). c \<notin> set (aborted h)) \<longrightarrow> result h = None \<and> error h = None) \<and>
     (status h = Idle \<or> status h = Running \<longrightarrow> result h = None \<and> error h = None) \<and>
     (status h = Success \<longrightarrow> error h = None) \<and>
     (status h = Error \<longrightarrow> result h = None)"

text \<open>\<^verbatim>\<open>onFinally\<close> has been called once for each run that was started and is no longer suspended.\<close>

definition finally_ok :: "'v flow \<Rightarrow> bool" where
  "finally_ok h \<longleftrightarrow>
     (\<forall>c. count_list (callbacks h) (OnFinally c) = (if c < controllers h \<and> c \<notin> set (awaiting h) then 1 else 0))"

definition reachable_ok :: "'v flow \<Rightarrow> bool" where
  "reachable_ok h \<longleftrightarrow> tokens_ok h \<and> data_ok h \<and> finally_ok h"

section \<open>Concrete inputs\<close>

text \<open>An environment that is just the flag \<^verbatim>\<open>signal.aborted\<close>, and a host that leaves the environment alone.\<close>

definition flag :: "bool \<Rightarrow> bool" where
  "flag e = e"

definition quiet :: "'e host" where
  "quiet d e = e"

definition resolves :: "nat \<Rightarrow> 'v \<Rightarrow> ('e, 'v) task" where
  "resolves d v e = (Settles (d, 0) (Inr v), e)"

definition rejects :: "nat \<Rightarrow> thrown \<Rightarrow> ('e, 'v) task" where
  "rejects d x e = (Settles (d, 0) (Inl x), e)"

definition fresh :: "'e \<Rightarrow> ('e, nat) world" where
  "fresh b = \<lparr>env = b, now = 0, timers = [], next_timer = 0, timer_turn = 0, trace = []\<rparr>"

text \<open>
  An environment that counts the invocations of a task which fails the first \<open>k\<close> times,
  each time with a longer message, and then succeeds; a token that is never fired.
\<close>

definition fails_then :: "nat \<Rightarrow> (nat, nat) task" where
  "fails_then k e =
     (Settles (1, 0) (if e < k then Inl (NewError (replicate (Suc e) CHR ''x'')) else Inr e), Suc e)"

definition unfired :: "'e \<Rightarrow> bool" where
  "unfired e = False"

text \<open>A task whose promise never settles.\<close>

definition hangs :: "('e, 'v) task" where
  "hangs e = (Never, e)"

section \<open>Properties of the runtime\<close>

lemma trace_elapse: "trace (elapse host d w) = trace w"
  by (simp add: elapse_def)

lemma dispatch_fired:
  "signal (env w) \<Longrightarrow>
   dispatch signal tasks i w = (replicate (length tasks) (Settles (0, 0) (Inl (NewError ''aborted''))), w)"
  by (induction tasks arbitrary: i) auto

lemma first_rejection_replicate:
  "first_rejection (Settles (0, 0) (Inl e) # replicate n (Settles (0, 0) (Inl e))) = Some ((0, 0), e)"
  by (induction n) (auto split: option.splits)

lemma Promise_all_replicate_rejected:
  "Promise_all (Settles (0, 0) (Inl e) # replicate n (Settles (0, 0) (Inl e))) = Settles (0, 0) (Inl e)"
  by (simp add: Promise_all_def first_rejection_replicate del: first_rejection.simps)

lemma first_rejection_None:
  "first_rejection ps = None \<longleftrightarrow> (\<forall>d e. Settles d (Inl e) \<notin> set ps)"
  by (induction ps rule: first_rejection.induct) (auto split: option.splits)

lemma first_rejection_Some:
  "first_rejection ps = Some (d, e) \<Longrightarrow>
   \<exists>i<length ps. ps ! i = Settles d (Inl e) \<and>
     (\<forall>j<length ps. \<forall>d' e'. ps ! j = Settles d' (Inl e') \<longrightarrow> d < d' \<or> (d = d' \<and> i \<le> j))"
proof (induction ps arbitrary: d e)
  case Nil
  then show ?case by simp
next
  case (Cons p ps)
  have shift: "\<exists>i<length (p # ps). (p # ps) ! i = Settles d (Inl e) \<and>
     (\<forall>j<length (p # ps). \<forall>d' e'. (p # ps) ! j = Settles d' (Inl e') \<longrightarrow> d < d' \<or> (d = d' \<and> i \<le> j))"
    if r: "first_rejection ps = Some (d, e)"
      and p: "\<And>d0 e0. p = Settles d0 (Inl e0) \<Longrightarrow> d < d0"
  proof -
    from Cons.IH[OF r] obtain i where i: "i < length ps" "ps ! i = Settles d (Inl e)"
      "\<forall>j<length ps. \<forall>d' e'. ps ! j = Settles d' (Inl e') \<longrightarrow> d < d' \<or> (d = d' \<and> i \<le> j)"
      by blast
    have "\<forall>j<length (p # ps). \<forall>d' e'. (p # ps) ! j = Settles d' (Inl e') \<longrightarrow> d < d' \<or> (d = d' \<and> Suc i \<le> j)"
    proof (intro allI impI)
      fix j d' e'
      assume j: "j < length (p # ps)" "(p # ps) ! j = Settles d' (Inl e')"
      show "d < d' \<or> (d = d' \<and> Suc i \<le> j)"
      proof (cases j)
        case 0
        with j p show ?thesis by simp
      next
        case (Suc j')
        with j i(3) show ?thesis by (simp del: split_paired_All split_paired_Ex)
      qed
    qed
    with i(1,2) show ?thesis
      by (intro exI[of _ "Suc i"]) simp
  qed
  have head: "\<exists>i<length (p # ps). (p # ps) ! i = Settles d (Inl e) \<and>
     (\<forall>j<length (p # ps). \<forall>d' e'. (p # ps) ! j = Settles d' (Inl e') \<longrightarrow> d < d' \<or> (d = d' \<and> i \<le> j))"
    if p: "p = Settles d (Inl e)"
      and r: "\<And>d' e'. first_rejection ps = Some (d', e') \<Longrightarrow> d \<le> d'"
  proof -
    have "\<forall>j<length (p # ps). \<forall>d' e'. (p # ps) ! j = Settles d' (Inl e') \<longrightarrow> d < d' \<or> (d = d' \<and> 0 \<le> j)"
    proof (intro allI impI)
      fix j d' e'
      assume j: "j < length (p # ps)" "(p # ps) ! j = Settles d' (Inl e')"
      show "d < d' \<or> (d = d' \<and> 0 \<le> j)"
      proof (cases j)
        case 0
        with j p show ?thesis by simp
      next
        case (Suc j')
        with j have m: "Settles d' (Inl e') \<in> set ps" by (metis length_Cons not_less_eq nth_Cons_Suc nth_mem not_less)
        then have "first_rejection ps \<noteq> None" using first_rejection_None[of ps] by blast
        then obtain d1 e1 where f: "first_rejection ps = Some (d1, e1)" by auto
        from Cons.IH[OF f] j Suc have "d1 \<le> d'" by fastforce
        with r[OF f] show ?thesis by auto
      qed
    qed
    with p show ?thesis by (intro exI[of _ 0]) simp
  qed
  show ?case
  proof (cases p)
    case Never
    with Cons.prems show ?thesis by (intro shift) auto
  next
    case (Settles d0 r0)
    show ?thesis
    proof (cases r0)
      case (Inr v)
      with Settles Cons.prems show ?thesis by (intro shift) auto
    next
      case (Inl e0)
      show ?thesis
      proof (cases "first_rejection ps")
        case None
        with Cons.prems Settles Inl show ?thesis by (intro head) auto
      next
        case (Some a)
        then obtain d' e' where a: "first_rejection ps = Some (d', e')" by (cases a) auto
        show ?thesis
        proof (cases "d' < d0")
          case True
          with a Cons.prems Settles Inl show ?thesis by (intro shift) auto
        next
          case False
          with a Cons.prems Settles Inl show ?thesis by (intro head) auto
        qed
      qed
    qed
  qed
qed

lemma first_rejection_earliest:
  assumes "i < length ps" "ps ! i = Settles d (Inl e)"
    "\<forall>j<length ps. \<forall>d' e'. ps ! j = Settles d' (Inl e') \<longrightarrow> d < d' \<or> (d = d' \<and> i \<le> j)"
  shows "first_rejection ps = Some (d, e)"
proof -
  have "first_rejection ps \<noteq> None"
    using assms(1,2) by (metis first_rejection_None nth_mem)
  then obtain d1 e1 where r: "first_rejection ps = Some (d1, e1)" by auto
  from first_rejection_Some[OF r] obtain k where k: "k < length ps" "ps ! k = Settles d1 (Inl e1)"
    "\<forall>j<length ps. \<forall>d' e'. ps ! j = Settles d' (Inl e') \<longrightarrow> d1 < d' \<or> (d1 = d' \<and> k \<le> j)"
    by blast
  from assms(3) k(1,2) have "d < d1 \<or> (d = d1 \<and> i \<le> k)" by blast
  moreover from k(3) assms(1,2) have "d1 < d \<or> (d1 = d \<and> k \<le> i)" by blast
  ultimately have "d = d1" "i = k" by auto
  with k(2) assms(2) have "e = e1" by simp
  with r \<open>d = d1\<close> show ?thesis by simp
qed

lemma all_fulfilled_values:
  "length vs = length ps \<Longrightarrow> \<forall>i<length ps. \<exists>d. ps ! i = Settles d (Inr (vs ! i)) \<Longrightarrow>
   first_rejection ps = None \<and> (\<exists>d. all_fulfilled ps = Some (d, vs))"
proof (induction ps arbitrary: vs)
  case Nil
  then show ?case by simp
next
  case (Cons p ps)
  then obtain v vs' where vs: "vs = v # vs'" by (cases vs) auto
  from Cons.prems(2) obtain d where p: "p = Settles d (Inr v)" unfolding vs by fastforce
  have "\<forall>i<length ps. \<exists>d. ps ! i = Settles d (Inr (vs' ! i))"
    using Cons.prems(2) unfolding vs by fastforce
  with Cons.IH[of vs'] Cons.prems(1) have "first_rejection ps = None \<and> (\<exists>d. all_fulfilled ps = Some (d, vs'))"
    by (simp add: vs)
  then show ?case unfolding p vs by auto
qed

lemma await_Some:
  "await host p w = Some (r, w') \<longleftrightarrow> (\<exists>i. p = Settles i r \<and> w' = elapse host (fst i) w)"
  by (cases p) (auto simp: await_def)

lemma trace_call: "call task i w = (p, w1) \<Longrightarrow> trace w1 = trace w @ [Invoke i]"
  by (auto simp: call_def split: prod.splits)

lemma trace_emit: "trace (emit ev w) = trace w @ [ev]"
  by (simp add: emit_def)

lemma env_emit: "env (emit ev w) = env w"
  by (simp add: emit_def)

lemma call_promise: "call task i w = (p, w1) \<Longrightarrow> p = fst (task (env w))"
  by (auto simp: call_def split: prod.splits)



lemma dispatch_unfired:
  assumes "\<not> signal (env w)" and "\<forall>t\<in>set tasks. \<forall>e. \<not> signal e \<longrightarrow> \<not> signal (snd (t e))"
  shows "\<exists>ps w1. dispatch signal tasks k w = (ps, w1) \<and> length ps = length tasks
           \<and> (\<forall>i<length tasks. \<exists>e. ps ! i = fst ((tasks ! i) e))
           \<and> trace w1 = trace w @ map Invoke [k..<k + length tasks]"
  using assms
proof (induction tasks arbitrary: k w)
  case Nil
  then show ?case by simp
next
  case (Cons t ts)
  let ?w' = "w\<lparr>env := snd (t (env w)), trace := trace w @ [Invoke k]\<rparr>"
  have c: "call t k w = (fst (t (env w)), ?w')"
    by (simp add: call_def split: prod.splits)
  have "\<not> signal (env ?w')"
    using Cons.prems by simp
  with Cons.IH[of ?w' "Suc k"] Cons.prems(2) obtain qs w1 where q:
    "dispatch signal ts (Suc k) ?w' = (qs, w1)" "length qs = length ts"
    "\<forall>i<length ts. \<exists>e. qs ! i = fst ((ts ! i) e)"
    "trace w1 = trace ?w' @ map Invoke [Suc k..<Suc k + length ts]"
    by auto
  have d: "dispatch signal (t # ts) k w = (fst (t (env w)) # qs, w1)"
    using Cons.prems(1) c q(1) by simp
  have s: "\<forall>i<length (t # ts). \<exists>e. (fst (t (env w)) # qs) ! i = fst (((t # ts) ! i) e)"
    using q(3) by (auto simp: nth_Cons split: nat.splits)
  have tr: "trace w1 = trace w @ map Invoke [k..<k + length (t # ts)]"
    using q(4) by (simp add: upt_conv_Cons del: upt_Suc)
  from d q(2) s tr show ?case by simp
qed

lemma now_elapse: "now (elapse host d w) = now w + d"
  by (simp add: elapse_def)

lemma now_call: "call task i w = (p, w1) \<Longrightarrow> now w1 = now w \<and> next_timer w1 = next_timer w"
  by (auto simp: call_def split: prod.splits)

lemma delay_clock:
  "now (delay host ms w) = now w + timer_delay ms"
  "next_timer (delay host ms w) = Suc (next_timer w)"
  "trace (delay host ms w) = trace w"
  "env (delay host ms w) = host (timer_delay ms) (env w)"
  by (simp_all add: delay_def setTimeout_def elapse_def)

lemma retry_loop_trace:
  "retry_loop signal host fn retries delayMs attempt lastError w = Some (r, w') \<Longrightarrow> 0 \<le> attempt \<Longrightarrow>
   \<exists>outs durs.
      trace w' = trace w @ concat (map (\<lambda>(i, out). [Invoke i, Settle i out]) (enumerate (nat attempt) outs))
      \<and> int (length outs) \<le> max 0 (retries - attempt)
      \<and> length durs = length outs
      \<and> (\<forall>i<length outs. \<exists>e t. fst (fn e) = Settles (durs ! i, t) (outs ! i))
      \<and> now w' = now w + sum_list durs
           + timer_delay delayMs
             * length (filter (\<lambda>(i, out). isl out \<and> int i < retries - 1) (enumerate (nat attempt) outs))
      \<and> next_timer w' = next_timer w
           + length (filter (\<lambda>(i, out). isl out \<and> int i < retries - 1) (enumerate (nat attempt) outs))
      \<and> (case r of
            Inr v \<Rightarrow> \<exists>es. outs = map Inl es @ [Inr v]
          | Inl e \<Rightarrow> \<exists>es. outs = map Inl es
                       \<and> (if int (length outs) = max 0 (retries - attempt) then e = last (lastError # es)
                           else e = NewError ''aborted'' \<and> signal (env w')))"
proof (induction signal host fn retries delayMs attempt lastError w rule: retry_loop.induct)
  case (1 signal host fn retries delayMs attempt lastError w)
  let ?S = "\<lambda>a outs. length (filter (\<lambda>(i, out). isl out \<and> int i < retries - 1) (enumerate a outs))"
  show ?case
  proof (cases "attempt < retries")
    case False
    with "1.prems" have "r = Inl lastError" "w' = w" by auto
    with False show ?thesis
      by (intro exI[of _ "[]"]) auto
  next
    case lt: True
    show ?thesis
    proof (cases "signal (env w)")
      case True
      with lt "1.prems" have "r = Inl (NewError ''aborted'')" "w' = w" by auto
      with True lt show ?thesis
        by (intro exI[of _ "[]"]) auto
    next
      case False
      obtain p w1 where c: "call fn (nat attempt) w = (p, w1)" by (metis surj_pair)
      from "1.prems" False lt c obtain o1 w2 where a: "await host p w1 = Some (o1, w2)"
        by (auto split: option.splits)
      then obtain d1 t1 where p: "p = Settles (d1, t1) o1" and w2: "w2 = elapse host d1 w1"
        by (auto simp: await_Some)
      have t2: "trace (emit (Settle (nat attempt) o1) w2) = trace w @ [Invoke (nat attempt), Settle (nat attempt) o1]"
        using w2 trace_call[OF c] by (simp add: trace_emit trace_elapse)
      have n2: "now (emit (Settle (nat attempt) o1) w2) = now w + d1"
        "next_timer (emit (Settle (nat attempt) o1) w2) = next_timer w"
        using w2 now_call[OF c] by (simp_all add: emit_def elapse_def)
      have hd: "\<exists>e t. fst (fn e) = Settles (d1, t) o1"
        using p call_promise[OF c] by metis
      show ?thesis
      proof (cases o1)
        case (Inr v)
        with "1.prems" False lt c a have rw: "r = Inr v" "w' = emit (Settle (nat attempt) (Inr v)) w2" by auto
        have "trace w' = trace w @ concat (map (\<lambda>(i, out). [Invoke i, Settle i out]) (enumerate (nat attempt) [o1]))
          \<and> int (length [o1]) \<le> max 0 (retries - attempt)
          \<and> length [d1] = length [o1]
          \<and> (\<forall>i<length [o1]. \<exists>e t. fst (fn e) = Settles ([d1] ! i, t) ([o1] ! i))
          \<and> now w' = now w + sum_list [d1] + timer_delay delayMs * ?S (nat attempt) [o1]
          \<and> next_timer w' = next_timer w + ?S (nat attempt) [o1]
          \<and> (\<exists>es. [o1] = map Inl es @ [Inr v])"
          using t2 n2 hd lt rw Inr by auto
        then show ?thesis
          unfolding rw by (intro exI[of _ "[o1]"] exI[of _ "[d1]"]) auto
      next
        case (Inl err)
        let ?w3 = "(if attempt < retries - 1
                  then delay host delayMs (emit (Settle (nat attempt) (Inl err)) w2)
                  else emit (Settle (nat attempt) (Inl err)) w2)"
        let ?k = "if attempt < retries - 1 then 1 else (0::nat)"
        have t3: "trace ?w3 = trace w @ [Invoke (nat attempt), Settle (nat attempt) (Inl err)]"
          using t2 Inl by (simp add: delay_clock)
        have n3: "now ?w3 = now w + d1 + timer_delay delayMs * ?k" "next_timer ?w3 = next_timer w + ?k"
          using n2 Inl by (simp_all add: delay_clock)
        from "1.prems" False lt c a Inl
        have rec: "retry_loop signal host fn retries delayMs (attempt + 1) err ?w3 = Some (r, w')"
          by auto
        have n: "nat (attempt + 1) = Suc (nat attempt)" using "1.prems"(2) by simp
        from "1.IH"[OF lt False c[symmetric] a refl Inl rec] "1.prems"(2)
        obtain outs durs where outs:
          "trace w' = trace ?w3 @ concat (map (\<lambda>(i, out). [Invoke i, Settle i out]) (enumerate (Suc (nat attempt)) outs))"
          "int (length outs) \<le> max 0 (retries - (attempt + 1))"
          "length durs = length outs"
          "\<forall>i<length outs. \<exists>e t. fst (fn e) = Settles (durs ! i, t) (outs ! i)"
          "now w' = now ?w3 + sum_list durs + timer_delay delayMs * ?S (Suc (nat attempt)) outs"
          "next_timer w' = next_timer ?w3 + ?S (Suc (nat attempt)) outs"
          "(case r of
                  Inr v \<Rightarrow> \<exists>es. outs = map Inl es @ [Inr v]
                | Inl e \<Rightarrow> \<exists>es. outs = map Inl es
                       \<and> (if int (length outs) = max 0 (retries - (attempt + 1)) then e = last (err # es)
                           else e = NewError ''aborted'' \<and> signal (env w')))"
          unfolding n by auto
        have S: "?S (nat attempt) (Inl err # outs) = ?k + ?S (Suc (nat attempt)) outs"
          using "1.prems"(2) by simp
        have 1: "trace w' = trace w @ concat (map (\<lambda>(i, out). [Invoke i, Settle i out]) (enumerate (nat attempt) (Inl err # outs)))"
          using outs(1) t3 by simp
        have 2: "int (length (Inl err # outs)) \<le> max 0 (retries - attempt)"
          using outs(2) lt by simp
        have 3: "length (d1 # durs) = length (Inl err # outs)"
          using outs(3) by simp
        have 4: "\<forall>i<length (Inl err # outs). \<exists>e t. fst (fn e) = Settles ((d1 # durs) ! i, t) ((Inl err # outs) ! i)"
          using outs(4) hd Inl by (auto simp: nth_Cons split: nat.splits)
        have 5: "now w' = now w + sum_list (d1 # durs) + timer_delay delayMs * ?S (nat attempt) (Inl err # outs)"
          unfolding S outs(5) n3 by (simp add: algebra_simps)
        have 6: "next_timer w' = next_timer w + ?S (nat attempt) (Inl err # outs)"
          unfolding S outs(6) n3 by simp
        have 7: "(case r of
            Inr v \<Rightarrow> \<exists>es. Inl err # outs = map Inl es @ [Inr v]
          | Inl e \<Rightarrow> \<exists>es. Inl err # outs = map Inl es
                       \<and> (if int (length (Inl err # outs)) = max 0 (retries - attempt) then e = last (lastError # es)
                           else e = NewError ''aborted'' \<and> signal (env w')))"
        proof (cases r)
          case (Inr v)
          with outs(7) obtain es where "outs = map Inl es @ [Inr v]" by auto
          then have "\<exists>es'. Inl err # outs = map Inl es' @ [Inr v]"
            by (intro exI[of _ "err # es"]) simp
          then show ?thesis unfolding Inr by simp
        next
          case (Inl e)
          with outs(7) obtain es where es: "outs = map Inl es"
            "(if int (length outs) = max 0 (retries - (attempt + 1)) then e = last (err # es)
                           else e = NewError ''aborted'' \<and> signal (env w'))" by auto
          have "int (length (Inl err # outs)) = max 0 (retries - attempt) \<longleftrightarrow> int (length outs) = max 0 (retries - (attempt + 1))"
            using lt by auto
          with es have "\<exists>es'. Inl err # outs = map Inl es'
                       \<and> (if int (length (Inl err # outs)) = max 0 (retries - attempt) then e = last (lastError # es')
                           else e = NewError ''aborted'' \<and> signal (env w'))"
            by (intro exI[of _ "err # es"]) simp
          then show ?thesis unfolding Inl by simp
        qed
        show ?thesis
          by (rule exI[of _ "Inl err # outs"], rule exI[of _ "d1 # durs"], intro conjI)
            (rule 1 2 3 4 5 6 7)+
      qed
    qed
  qed
qed

lemma retry_loop_returns:
  "\<forall>e. fst (fn e) \<noteq> Never \<Longrightarrow> retry_loop signal host fn retries delayMs attempt lastError w \<noteq> None"
proof (induction signal host fn retries delayMs attempt lastError w rule: retry_loop.induct)
  case (1 signal host fn retries delayMs attempt lastError w)
  obtain p w1 where c: "call fn (nat attempt) w = (p, w1)" by (metis surj_pair)
  with "1.prems" have "p \<noteq> Never" using call_promise[OF c] by simp
  then obtain d o1 where p: "p = Settles d o1" by (cases p) auto
  then have a: "await host p w1 = Some (o1, elapse host (fst d) w1)" by (simp add: await_def)
  show ?case
  proof (cases "attempt < retries \<and> \<not> signal (env w)")
    case False
    then show ?thesis by auto
  next
    case True
    show ?thesis
    proof (cases o1)
      case (Inl err)
      from True have lt: "attempt < retries" and ns: "\<not> signal (env w)" by auto
      from "1.IH"[OF lt ns c[symmetric] a refl Inl "1.prems"] show ?thesis
        using True c a Inl by (subst retry_loop.simps) simp
    next
      case (Inr v)
      then show ?thesis using True c a by (subst retry_loop.simps) simp
    qed
  qed
qed

lemma timers_elapse: "fst ` set (timers (elapse host d w)) \<subseteq> fst ` set (timers w)"
  by (force simp: elapse_def)

lemma race_with_timer:
  "Promise_race p [Settles t (Inl x)] =
     (case p of Never \<Rightarrow> Settles t (Inl x)
      | Settles i r \<Rightarrow> if t < i then Settles t (Inl x) else Settles i r)"
  by (cases p) auto

lemma pTimeout_result:
  "pTimeout host p ms w =
     Some (case p of Never \<Rightarrow> Inl (NewError ''timeout'')
           | Settles i r \<Rightarrow> if (timer_delay ms, timer_turn w) < i then Inl (NewError ''timeout'') else r,
           clearTimeout (next_timer w)
             (elapse host
                (case p of Never \<Rightarrow> timer_delay ms
                 | Settles i r \<Rightarrow> if (timer_delay ms, timer_turn w) < i then timer_delay ms else fst i)
                (snd (setTimeout ms w))))"
  by (cases p) (auto simp: pTimeout_def race_with_timer await_def setTimeout_def)

lemma pTimeout_timers:
  assumes "pTimeout host p ms w = Some (r, w')"
  shows "next_timer w \<notin> fst ` set (timers w')" and "fst ` set (timers w') \<subseteq> fst ` set (timers w)"
    and "trace w' = trace w" and "now w' \<le> now w + timer_delay ms"
proof -
  let ?d = "(case p of Never \<Rightarrow> timer_delay ms
                 | Settles i r \<Rightarrow> if (timer_delay ms, timer_turn w) < i then timer_delay ms else fst i)"
  from assms have w': "w' = clearTimeout (next_timer w) (elapse host ?d (snd (setTimeout ms w)))"
    by (simp add: pTimeout_result)
  show "next_timer w \<notin> fst ` set (timers w')"
    unfolding w' by (auto simp: clearTimeout_def)
  have "fst ` set (timers (elapse host ?d (snd (setTimeout ms w)))) \<subseteq> insert (next_timer w) (fst ` set (timers w))"
    using timers_elapse[of host ?d "snd (setTimeout ms w)"] by (auto simp: setTimeout_def)
  then show "fst ` set (timers w') \<subseteq> fst ` set (timers w)"
    unfolding w' by (auto simp: clearTimeout_def)
  show "trace w' = trace w"
    unfolding w' by (simp add: clearTimeout_def trace_elapse setTimeout_def)
  have "?d \<le> timer_delay ms"
    by (cases p) (auto simp: not_less less_eq_prod_def)
  then show "now w' \<le> now w + timer_delay ms"
    unfolding w' by (simp add: clearTimeout_def now_elapse setTimeout_def)
qed

section \<open>Properties of the combinators\<close>

text \<open>\<^bold>\<open>C3\<close>, as the code has it. The token is consulted once per task, so with no task
  it is never consulted: on the empty list both combinators succeed with the empty result
  although the token is fired. On a non-empty list with the token fired beforehand,
  \<open>parallel\<close> and \<open>sequence\<close> fail with \<^verbatim>\<open>Error("aborted")\<close> and invoke none of the tasks
  (the trace is unchanged).\<close>

theorem fired_token_starts_nothing:
  assumes "tasks \<noteq> []" and "signal (env w)"
  shows "parallel signal host tasks w = Some (Inl (NewError ''aborted''), elapse host 0 w)
       \<and> trace (elapse host 0 w) = trace w
       \<and> sequence signal host tasks w = Some (Inl (NewError ''aborted''), w)"
proof -
  from assms(1) obtain t ts where ts: "tasks = t # ts"
    by (cases tasks) auto
  have "parallel signal host tasks w = Some (Inl (NewError ''aborted''), elapse host 0 w)"
    using assms(2) unfolding ts parallel_def
    by (simp add: dispatch_fired Promise_all_replicate_rejected await_def)
  moreover have "sequence signal host tasks w = Some (Inl (NewError ''aborted''), w)"
    using assms(2) by (simp add: sequence_def ts)
  ultimately show ?thesis
    by (simp add: trace_elapse)
qed

theorem fired_token_starts_nothing_witness:
  "[resolves 5 (1::nat)] \<noteq> [] \<and> flag (env (fresh True))
   \<and> parallel flag quiet [resolves 5 (1::nat)] (fresh True)
       = Some (Inl (NewError ''aborted''), elapse quiet 0 (fresh True))
   \<and> trace (elapse quiet 0 (fresh True)) = trace (fresh True)
   \<and> sequence flag quiet [resolves 5 (1::nat)] (fresh True)
       = Some (Inl (NewError ''aborted''), fresh True)"
  using fired_token_starts_nothing [of "[resolves 5 (1::nat)]" flag "fresh True" quiet]
  by (simp add: flag_def fresh_def)

theorem fired_token_empty_list_counterexample:
  "flag (env (fresh True))
   \<and> parallel flag quiet ([] :: (bool, nat) task list) (fresh True) = Some (Inr [], fresh True)
   \<and> sequence flag quiet ([] :: (bool, nat) task list) (fresh True) = Some (Inr [], fresh True)"
  by (simp add: flag_def fresh_def parallel_def sequence_def Promise_all_def await_def
      elapse_def quiet_def)

text \<open>\<^bold>\<open>C5\<close>. Let the token be unfired when \<open>parallel\<close> is called, and let no task fire it in
  its synchronous part. Then every task is invoked, in input order. If task \<open>i\<close> fulfils
  with \<open>vs ! i\<close>, for every \<open>i\<close> and at whatever instants, \<open>parallel\<close> returns \<open>vs\<close>: the values
  in input order. If the promises of the tasks are \<open>ps\<close> and \<open>ps ! i\<close> rejects at an instant
  before every other rejection, \<open>parallel\<close> fails with the reason of \<open>ps ! i\<close> alone, whatever
  the other tasks do: rejections are not aggregated.\<close>

theorem parallel_input_order_first_rejection:
  assumes "\<not> signal (env w)" and "\<forall>t\<in>set tasks. \<forall>e. \<not> signal e \<longrightarrow> \<not> signal (snd (t e))"
  shows "(length vs = length tasks
          \<and> (\<forall>i<length tasks. \<forall>e. \<exists>d. fst ((tasks ! i) e) = Settles d (Inr (vs ! i)))
          \<longrightarrow> (\<exists>w'. parallel signal host tasks w = Some (Inr vs, w')
                \<and> trace w' = trace w @ map Invoke [0..<length tasks]))
       \<and> (length ps = length tasks
          \<and> (\<forall>i<length tasks. \<forall>e. fst ((tasks ! i) e) = ps ! i)
          \<and> i < length ps \<and> ps ! i = Settles d (Inl e)
          \<and> (\<forall>j<length ps. \<forall>d' e'. ps ! j = Settles d' (Inl e') \<longrightarrow> j = i \<or> d < d')
          \<longrightarrow> (\<exists>w'. parallel signal host tasks w = Some (Inl e, w')
                \<and> trace w' = trace w @ map Invoke [0..<length tasks]))"
proof -
  from dispatch_unfired[OF assms, of 0] obtain qs w1 where q:
    "dispatch signal tasks 0 w = (qs, w1)" "length qs = length tasks"
    "\<forall>i<length tasks. \<exists>e. qs ! i = fst ((tasks ! i) e)"
    "trace w1 = trace w @ map Invoke [0..<length tasks]"
    by auto
  have 1: "\<exists>w'. parallel signal host tasks w = Some (Inr vs, w')
                \<and> trace w' = trace w @ map Invoke [0..<length tasks]"
    if h: "length vs = length tasks
          \<and> (\<forall>i<length tasks. \<forall>e. \<exists>d. fst ((tasks ! i) e) = Settles d (Inr (vs ! i)))"
  proof -
    have "\<forall>i<length qs. \<exists>d. qs ! i = Settles d (Inr (vs ! i))"
      using h q(2,3) by metis
    with h q(2) obtain dmax where "first_rejection qs = None" "all_fulfilled qs = Some (dmax, vs)"
      using all_fulfilled_values[of vs qs] by auto
    then have "Promise_all qs = Settles dmax (Inr vs)"
      by (simp add: Promise_all_def)
    then show ?thesis
      using q(1,4) by (simp add: parallel_def await_def trace_elapse)
  qed
  have 2: "\<exists>w'. parallel signal host tasks w = Some (Inl e, w')
                \<and> trace w' = trace w @ map Invoke [0..<length tasks]"
    if h: "length ps = length tasks
          \<and> (\<forall>i<length tasks. \<forall>e. fst ((tasks ! i) e) = ps ! i)
          \<and> i < length ps \<and> ps ! i = Settles d (Inl e)
          \<and> (\<forall>j<length ps. \<forall>d' e'. ps ! j = Settles d' (Inl e') \<longrightarrow> j = i \<or> d < d')"
  proof -
    have "\<forall>i<length tasks. qs ! i = ps ! i"
      using h q(3) by metis
    with h q(2) have eq: "qs = ps"
      by (simp add: list_eq_iff_nth_eq)
    have "\<forall>j<length ps. \<forall>d' e'. ps ! j = Settles d' (Inl e') \<longrightarrow> d < d' \<or> (d = d' \<and> i \<le> j)"
    proof (intro allI impI)
      fix j d' e'
      assume j: "j < length ps" "ps ! j = Settles d' (Inl e')"
      with h have "j = i \<or> d < d'" by blast
      with j h show "d < d' \<or> (d = d' \<and> i \<le> j)" by auto
    qed
    with h have "first_rejection ps = Some (d, e)"
      by (intro first_rejection_earliest[of i]) auto
    then have "Promise_all qs = Settles d (Inl e)"
      by (simp add: Promise_all_def eq)
    then show ?thesis
      using q(1,4) by (simp add: parallel_def await_def trace_elapse)
  qed
  from 1 2 show ?thesis by blast
qed

theorem parallel_input_order_first_rejection_witness:
  "(\<exists>w'. parallel flag quiet [resolves 5 (1::nat), resolves 2 2, resolves 9 3, resolves 1 4] (fresh False)
           = Some (Inr [1, 2, 3, 4], w')
        \<and> trace w' = [Invoke 0, Invoke 1, Invoke 2, Invoke 3])
   \<and> (\<exists>w'. parallel flag quiet
           [resolves 5 (1::nat), rejects 3 (NewError ''a''), rejects 2 (NewError ''b'')] (fresh False)
           = Some (Inl (NewError ''b''), w')
        \<and> trace w' = [Invoke 0, Invoke 1, Invoke 2])"
proof -
  let ?t1 = "[resolves 5 (1::nat), resolves 2 2, resolves 9 3, resolves 1 4] :: (bool, nat) task list"
  let ?t2 = "[resolves 5 (1::nat), rejects 3 (NewError ''a''), rejects 2 (NewError ''b'')] :: (bool, nat) task list"
  let ?ps = "[Settles (5, 0) (Inr (1::nat)), Settles (3, 0) (Inl (NewError ''a'')), Settles (2, 0) (Inl (NewError ''b''))]"
  have u: "\<not> flag (env (fresh False :: (bool, nat) world))"
    by (simp add: flag_def fresh_def)
  have s1: "\<forall>t\<in>set ?t1. \<forall>e. \<not> flag e \<longrightarrow> \<not> flag (snd (t e))"
    and s2: "\<forall>t\<in>set ?t2. \<forall>e. \<not> flag e \<longrightarrow> \<not> flag (snd (t e))"
    by (simp_all add: resolves_def rejects_def)
  have h1: "length [1, 2, 3, 4::nat] = length ?t1
          \<and> (\<forall>i<length ?t1. \<forall>e. \<exists>d. fst ((?t1 ! i) e) = Settles d (Inr ([1, 2, 3, 4] ! i)))"
    by (simp add: resolves_def All_less_Suc numeral_eq_Suc)
  have h2: "length ?ps = length ?t2
          \<and> (\<forall>i<length ?t2. \<forall>e. fst ((?t2 ! i) e) = ?ps ! i)
          \<and> 2 < length ?ps \<and> ?ps ! 2 = Settles (2, 0) (Inl (NewError ''b''))
          \<and> (\<forall>j<length ?ps. \<forall>d' e'. ?ps ! j = Settles d' (Inl e') \<longrightarrow> j = 2 \<or> (2, 0) < d')"
    by (simp add: resolves_def rejects_def All_less_Suc numeral_eq_Suc)
  from parallel_input_order_first_rejection[OF u s1, where vs="[1, 2, 3, 4]" and host=quiet] h1
  have a: "\<exists>w'. parallel flag quiet ?t1 (fresh False) = Some (Inr [1, 2, 3, 4], w')
        \<and> trace w' = [Invoke 0, Invoke 1, Invoke 2, Invoke 3]"
    by (simp add: fresh_def upt_conv_Cons numeral_eq_Suc)
  from parallel_input_order_first_rejection[OF u s2, where ps="?ps" and i=2 and d="(2, 0)"
      and e="NewError ''b''" and host=quiet] h2
  have b: "\<exists>w'. parallel flag quiet ?t2 (fresh False) = Some (Inl (NewError ''b''), w')
        \<and> trace w' = [Invoke 0, Invoke 1, Invoke 2]"
    by (simp add: fresh_def upt_conv_Cons numeral_eq_Suc)
  from a b show ?thesis by blast
qed



text \<open>\<^bold>\<open>C4\<close>, as the code has it. For \<open>n \<ge> 1\<close>: entered with the token fired, every turn of
  the loop (the first included) fails with \<^verbatim>\<open>Error("aborted")\<close> without invoking \<open>fn\<close>;
  \<open>retry\<close> returns whenever the promises of \<open>fn\<close> settle; and when it returns, the trace it
  added is \<open>Invoke 0, Settle 0, Invoke 1, Settle 1, \<dots>\<close> with at most \<open>n\<close> invocations. After
  each failed attempt but the \<open>n\<close>-th a timer is set and awaited: the clock has advanced by
  the durations of the attempts plus, for each such attempt, the delay that the runtime
  gives a timer of \<open>d\<close>, the same every time; that delay is \<open>d\<close> itself when \<open>d < 2\<^sup>3\<^sup>1\<close>, and
  1 ms otherwise. A value is the outcome of the last attempt, all earlier ones having
  failed. A failure after \<open>n\<close> attempts is the error of the last attempt; a failure after
  fewer is \<^verbatim>\<open>Error("aborted")\<close>, the token being fired.\<close>

theorem retry_attempts:
  assumes "1 \<le> n"
  shows "(\<forall>attempt lastError (u :: ('e, 'v) world).
            0 \<le> attempt \<and> attempt < n \<and> signal (env u) \<longrightarrow>
            retry_loop signal host fn n d attempt lastError u = Some (Inl (NewError ''aborted''), u))
       \<and> ((\<forall>e. fst (fn e) \<noteq> Never) \<longrightarrow> retry signal host fn (Some n) (Some d) w \<noteq> None)
       \<and> (retry signal host fn (Some n) (Some d) w = Some (r, w') \<longrightarrow>
           (\<exists>outs durs.
              trace w' = trace w @ concat (map (\<lambda>(i, out). [Invoke i, Settle i out]) (enumerate 0 outs))
            \<and> length outs \<le> nat n
            \<and> length durs = length outs
            \<and> (\<forall>i<length outs. \<exists>e t. fst (fn e) = Settles (durs ! i, t) (outs ! i))
            \<and> now w' = now w + sum_list durs
                 + timer_delay d
                   * length (filter (\<lambda>(i, out). isl out \<and> int i < n - 1) (enumerate 0 outs))
            \<and> next_timer w' = next_timer w
                 + length (filter (\<lambda>(i, out). isl out \<and> int i < n - 1) (enumerate 0 outs))
            \<and> (case r of
                  Inr v \<Rightarrow> \<exists>es. outs = map Inl es @ [Inr v]
                | Inl e \<Rightarrow> \<exists>es. outs = map Inl es
                    \<and> (if length outs = nat n then e = last es
                        else e = NewError ''aborted'' \<and> signal (env w')))))
       \<and> (d < 2147483648 \<longrightarrow> timer_delay d = d)"
proof (intro conjI impI allI)
  fix attempt lastError and u :: "('e, 'v) world"
  assume "0 \<le> attempt \<and> attempt < n \<and> signal (env u)"
  then show "retry_loop signal host fn n d attempt lastError u = Some (Inl (NewError ''aborted''), u)"
    by simp
next
  assume "\<forall>e. fst (fn e) \<noteq> Never"
  then show "retry signal host fn (Some n) (Some d) w \<noteq> None"
    unfolding retry_def by (rule retry_loop_returns)
next
  assume "d < 2147483648"
  then show "timer_delay d = d"
    by (simp add: timer_delay_def)
next
  assume "retry signal host fn (Some n) (Some d) w = Some (r, w')"
  then have "retry_loop signal host fn n d 0 Undefined w = Some (r, w')"
    by (simp add: retry_def)
  from retry_loop_trace[OF this] obtain outs durs where outs:
    "trace w' = trace w @ concat (map (\<lambda>(i, out). [Invoke i, Settle i out]) (enumerate 0 outs))"
    "int (length outs) \<le> max 0 (n - 0)"
    "length durs = length outs"
    "\<forall>i<length outs. \<exists>e t. fst (fn e) = Settles (durs ! i, t) (outs ! i)"
    "now w' = now w + sum_list durs
       + timer_delay d * length (filter (\<lambda>(i, out). isl out \<and> int i < n - 1) (enumerate 0 outs))"
    "next_timer w' = next_timer w
       + length (filter (\<lambda>(i, out). isl out \<and> int i < n - 1) (enumerate 0 outs))"
    "(case r of
            Inr v \<Rightarrow> \<exists>es. outs = map Inl es @ [Inr v]
          | Inl e \<Rightarrow> \<exists>es. outs = map Inl es
                       \<and> (if int (length outs) = max 0 (n - 0) then e = last (Undefined # es)
                           else e = NewError ''aborted'' \<and> signal (env w')))"
    by auto
  have len: "length outs \<le> nat n" using outs(2) assms by simp
  have eq: "int (length outs) = max 0 (n - 0) \<longleftrightarrow> length outs = nat n" using assms by auto
  have 7: "(case r of
                  Inr v \<Rightarrow> \<exists>es. outs = map Inl es @ [Inr v]
                | Inl e \<Rightarrow> \<exists>es. outs = map Inl es
                    \<and> (if length outs = nat n then e = last es
                        else e = NewError ''aborted'' \<and> signal (env w')))"
  proof (cases r)
    case (Inr v)
    with outs(7) show ?thesis by simp
  next
    case (Inl e)
    with outs(7) obtain es where es: "outs = map Inl es"
      "(if int (length outs) = max 0 (n - 0) then e = last (Undefined # es)
                           else e = NewError ''aborted'' \<and> signal (env w'))" by auto
    have "length outs = nat n \<Longrightarrow> es \<noteq> []" using es(1) assms by auto
    with es eq have "outs = map Inl es
                    \<and> (if length outs = nat n then e = last es
                        else e = NewError ''aborted'' \<and> signal (env w'))"
      by auto
    then show ?thesis unfolding Inl by auto
  qed
  show "\<exists>outs durs.
              trace w' = trace w @ concat (map (\<lambda>(i, out). [Invoke i, Settle i out]) (enumerate 0 outs))
            \<and> length outs \<le> nat n
            \<and> length durs = length outs
            \<and> (\<forall>i<length outs. \<exists>e t. fst (fn e) = Settles (durs ! i, t) (outs ! i))
            \<and> now w' = now w + sum_list durs
                 + timer_delay d
                   * length (filter (\<lambda>(i, out). isl out \<and> int i < n - 1) (enumerate 0 outs))
            \<and> next_timer w' = next_timer w
                 + length (filter (\<lambda>(i, out). isl out \<and> int i < n - 1) (enumerate 0 outs))
            \<and> (case r of
                  Inr v \<Rightarrow> \<exists>es. outs = map Inl es @ [Inr v]
                | Inl e \<Rightarrow> \<exists>es. outs = map Inl es
                    \<and> (if length outs = nat n then e = last es
                        else e = NewError ''aborted'' \<and> signal (env w')))"
    by (rule exI[of _ outs], rule exI[of _ durs], intro conjI)
      (rule outs(1) len outs(3) outs(4) outs(5) outs(6) 7)+
qed

theorem retry_attempts_witness:
  "retry_loop flag quiet (rejects 1 (NewError ''no'')) 3 10 1 Undefined (fresh True)
     = Some (Inl (NewError ''aborted''), fresh True)
   \<and> retry unfired quiet (fails_then 3) (Some 3) (Some 10) (fresh 0) \<noteq> None
   \<and> (\<exists>outs durs. [Invoke 0, Settle 0 (Inl (NewError ''x'')) :: nat event,
                Invoke 1, Settle 1 (Inl (NewError ''xx'')),
                Invoke 2, Settle 2 (Inl (NewError ''xxx''))]
               = concat (map (\<lambda>(i, out). [Invoke i, Settle i out]) (enumerate 0 outs))
            \<and> length outs = 3
            \<and> length durs = length outs
            \<and> (23::nat) = sum_list durs
                 + 10 * length (filter (\<lambda>(i, out). isl out \<and> int i < 3 - 1) (enumerate 0 outs))
            \<and> (2::nat) = length (filter (\<lambda>(i, out). isl out \<and> int i < 3 - 1) (enumerate 0 outs))
            \<and> (\<exists>es. outs = map Inl es \<and> NewError ''xxx'' = last es))"
proof -
  let ?w' = "\<lparr>env = 3::nat, now = 23, timers = [], next_timer = 2, timer_turn = 0,
      trace = [Invoke 0, Settle 0 (Inl (NewError ''x'')),
                Invoke 1, Settle 1 (Inl (NewError ''xx'')),
                Invoke 2, Settle 2 (Inl (NewError ''xxx'')) :: nat event]\<rparr>"
  have n: "(1::int) \<le> 3" by simp
  have h0: "0 \<le> (1::int) \<and> (1::int) < 3 \<and> flag (env (fresh True))"
    by (simp add: flag_def fresh_def)
  have h1: "\<forall>e. fst (fails_then 3 e) \<noteq> Never"
    by (simp add: fails_then_def)
  have h2: "retry unfired quiet (fails_then 3) (Some 3) (Some 10) (fresh 0) = Some (Inl (NewError ''xxx''), ?w')"
    by (simp add: retry_def unfired_def quiet_def fresh_def fails_then_def call_def
        await_def elapse_def emit_def delay_def setTimeout_def timer_delay_def)
  from retry_attempts[OF n, of flag quiet "rejects 1 (NewError ''no'')" 10] h0
  have a: "retry_loop flag quiet (rejects 1 (NewError ''no'')) 3 10 1 Undefined (fresh True)
     = Some (Inl (NewError ''aborted''), fresh True)"
    by blast
  note T = retry_attempts[OF n, of unfired quiet "fails_then 3" 10 "fresh 0" "Inl (NewError ''xxx'')" ?w']
  from T h1 have b: "retry unfired quiet (fails_then 3) (Some 3) (Some 10) (fresh 0) \<noteq> None"
    by blast
  from T[THEN conjunct2, THEN conjunct2, THEN conjunct1, THEN mp, OF h2]
  have c: "\<exists>outs durs. [Invoke 0, Settle 0 (Inl (NewError ''x'')) :: nat event,
                Invoke 1, Settle 1 (Inl (NewError ''xx'')),
                Invoke 2, Settle 2 (Inl (NewError ''xxx''))]
               = concat (map (\<lambda>(i, out). [Invoke i, Settle i out]) (enumerate 0 outs))
            \<and> length outs = 3
            \<and> length durs = length outs
            \<and> (23::nat) = sum_list durs
                 + 10 * length (filter (\<lambda>(i, out). isl out \<and> int i < 3 - 1) (enumerate 0 outs))
            \<and> (2::nat) = length (filter (\<lambda>(i, out). isl out \<and> int i < 3 - 1) (enumerate 0 outs))
            \<and> (\<exists>es. outs = map Inl es \<and> NewError ''xxx'' = last es)"
    by (simp add: fresh_def unfired_def timer_delay_def if_bool_eq_conj cong: if_cong) blast
  from a b c show ?thesis by blast
qed

theorem retry_long_delay_counterexample:
  "map_option fst (retry unfired quiet (fails_then 2) (Some 2) (Some 2147483648) (fresh 0))
     = Some (Inl (NewError ''xx''))
   \<and> map_option (now \<circ> snd) (retry unfired quiet (fails_then 2) (Some 2) (Some 2147483648) (fresh 0))
     = Some 3"
  by (simp add: retry_def unfired_def quiet_def fresh_def fails_then_def call_def
      await_def elapse_def emit_def delay_def setTimeout_def timer_delay_def)

text \<open>\<^bold>\<open>C7\<close>, as the code has it. Let \<open>p\<close> be the promise that \<open>fn\<close> returns, and let the
  timer of \<open>pTimeout\<close> fire at the delay that the runtime gives a timer of \<open>ms\<close> (\<open>ms\<close> itself
  when \<open>ms < 2\<^sup>3\<^sup>1\<close>, 1 ms otherwise) and at its turn within that millisecond. If \<open>p\<close>
  settles before the timer fires, \<open>timeout\<close> settles as \<open>p\<close> does (with its value, or with
  its rejection); if \<open>p\<close> settles after the timer fires, or never, \<open>timeout\<close> fails with
  \<^verbatim>\<open>Error("timeout")\<close>. \<open>timeout\<close> always returns, no later than the timer fires; \<open>fn\<close> has been
  invoked once; and on either path the timer that \<open>pTimeout\<close> set is no longer pending
  afterwards: no timer is pending that was not pending before the call.\<close>

theorem timeout_or_settlement:
  assumes "fn (env w) = (p, e1)"
  shows "(\<forall>i r. p = Settles i r \<and> i < (timer_delay ms, timer_turn w) \<longrightarrow>
            map_option fst (timeout host fn ms w) = Some r)
       \<and> (p = Never \<or> (\<exists>i r. p = Settles i r \<and> (timer_delay ms, timer_turn w) < i) \<longrightarrow>
            map_option fst (timeout host fn ms w) = Some (Inl (NewError ''timeout'')))
       \<and> (\<exists>r w'. timeout host fn ms w = Some (r, w')
            \<and> next_timer w \<notin> fst ` set (timers w')
            \<and> fst ` set (timers w') \<subseteq> fst ` set (timers w)
            \<and> trace w' = trace w @ [Invoke 0]
            \<and> now w' \<le> now w + timer_delay ms)
       \<and> (ms < 2147483648 \<longrightarrow> timer_delay ms = ms)"
proof -
  let ?w1 = "w\<lparr>env := e1, trace := trace w @ [Invoke 0]\<rparr>"
  have c: "call fn 0 w = (p, ?w1)"
    using assms by (simp add: call_def)
  then have t: "timeout host fn ms w = pTimeout host p ms ?w1"
    by (simp add: timeout_def)
  obtain r w' where r: "pTimeout host p ms ?w1 = Some (r, w')"
    by (simp add: pTimeout_result)
  from pTimeout_timers[OF r] have "next_timer w \<notin> fst ` set (timers w')"
    "fst ` set (timers w') \<subseteq> fst ` set (timers w)" "trace w' = trace w @ [Invoke 0]"
    "now w' \<le> now w + timer_delay ms"
    by simp_all
  with r t have 3: "\<exists>r w'. timeout host fn ms w = Some (r, w')
            \<and> next_timer w \<notin> fst ` set (timers w')
            \<and> fst ` set (timers w') \<subseteq> fst ` set (timers w)
            \<and> trace w' = trace w @ [Invoke 0]
            \<and> now w' \<le> now w + timer_delay ms"
    by auto
  have 1: "\<forall>i r. p = Settles i r \<and> i < (timer_delay ms, timer_turn w) \<longrightarrow>
            map_option fst (timeout host fn ms w) = Some r"
  proof (intro allI impI)
    fix i r
    assume h: "p = Settles i r \<and> i < (timer_delay ms, timer_turn w)"
    then have "\<not> (timer_delay ms, timer_turn w) < i"
      by (simp add: not_less less_imp_le)
    with h show "map_option fst (timeout host fn ms w) = Some r"
      by (simp add: t pTimeout_result)
  qed
  have 2: "p = Never \<or> (\<exists>i r. p = Settles i r \<and> (timer_delay ms, timer_turn w) < i) \<longrightarrow>
            map_option fst (timeout host fn ms w) = Some (Inl (NewError ''timeout''))"
    by (auto simp: t pTimeout_result)
  have 4: "ms < 2147483648 \<longrightarrow> timer_delay ms = ms"
    by (simp add: timer_delay_def)
  from 1 2 3 4 show ?thesis by blast
qed

theorem timeout_or_settlement_witness:
  "map_option fst (timeout quiet (resolves 3 (7::nat)) 10 (fresh False)) = Some (Inr 7)
   \<and> map_option fst (timeout quiet (resolves 30 (7::nat)) 10 (fresh False)) = Some (Inl (NewError ''timeout''))
   \<and> map_option fst (timeout quiet (hangs :: (bool, nat) task) 10 (fresh False)) = Some (Inl (NewError ''timeout''))
   \<and> timer_delay 10 = 10"
proof -
  have a: "resolves 3 (7::nat) (env (fresh False)) = (Settles (3, 0) (Inr 7), False)"
    by (simp add: resolves_def fresh_def)
  have b: "resolves 30 (7::nat) (env (fresh False)) = (Settles (30, 0) (Inr 7), False)"
    by (simp add: resolves_def fresh_def)
  have c: "(hangs :: (bool, nat) task) (env (fresh False)) = (Never, False)"
    by (simp add: hangs_def fresh_def)
  have t: "timer_delay 10 = 10" "timer_turn (fresh False) = 0"
    by (simp_all add: timer_delay_def fresh_def)
  from timeout_or_settlement[of "resolves 3 7" "fresh False" _ _ 10 quiet, OF a]
    timeout_or_settlement[of "resolves 30 7" "fresh False" _ _ 10 quiet, OF b]
    timeout_or_settlement[of hangs "fresh False" _ _ 10 quiet, OF c]
  show ?thesis by (simp add: t)
qed

theorem timeout_long_delay_counterexample:
  "(50::nat) \<le> 2147483648
   \<and> map_option fst (timeout quiet (resolves 50 (7::nat)) 2147483648 (fresh False))
       = Some (Inl (NewError ''timeout''))"
  by (simp add: timeout_def pTimeout_def call_def resolves_def fresh_def setTimeout_def
      timer_delay_def await_def elapse_def clearTimeout_def quiet_def)

text \<open>\<^bold>\<open>C10\<close>. With \<open>retries = 0\<close> the loop body never runs: whatever the token, the delay and
  \<open>fn\<close> are, \<open>fn\<close> is not invoked (the world, and so the trace, is unchanged) and the
  combinator rejects with the uninitialised \<^verbatim>\<open>lastError\<close>, \<^verbatim>\<open>undefined\<close>.\<close>

theorem retry_zero_rejects_undefined:
  "retry signal host fn (Some 0) (Some d) w = Some (Inl Undefined, w)"
  by (simp add: retry_def)

section \<open>Properties of the hook\<close>

lemma abort_current_fields:
  "status (abort_current h) = status h"
  "result (abort_current h) = result h"
  "error (abort_current h) = error h"
  "abortControllerRef (abort_current h) = abortControllerRef h"
  "isMountedRef (abort_current h) = isMountedRef h"
  "set (aborted (abort_current h)) = set (aborted h) \<union> set_option (abortControllerRef h)"
  "controllers (abort_current h) = controllers h"
  "awaiting (abort_current h) = awaiting h"
  "callbacks (abort_current h) = callbacks h"
  by (simp_all add: abort_current_def split: option.splits)

lemma executeRun_start_fields:
  "fst (executeRun_start h) = controllers h"
  "status (snd (executeRun_start h)) = Running"
  "result (snd (executeRun_start h)) = None"
  "error (snd (executeRun_start h)) = None"
  "abortControllerRef (snd (executeRun_start h)) = Some (controllers h)"
  "isMountedRef (snd (executeRun_start h)) = isMountedRef h"
  "set (aborted (snd (executeRun_start h))) = set (aborted h) \<union> set_option (abortControllerRef h)"
  "controllers (snd (executeRun_start h)) = Suc (controllers h)"
  "awaiting (snd (executeRun_start h)) = awaiting h @ [controllers h]"
  "callbacks (snd (executeRun_start h)) = callbacks h"
  by (simp_all add: executeRun_start_def Let_def abort_current_fields)

lemma executeRun_settle_fields:
  "status (executeRun_settle c outcome h) =
     (if cancelled c h then Cancelled else case outcome of Inl err \<Rightarrow> Error | Inr v \<Rightarrow> Success)"
  "result (executeRun_settle c outcome h) =
     (if cancelled c h then result h else case outcome of Inl err \<Rightarrow> result h | Inr v \<Rightarrow> Some v)"
  "error (executeRun_settle c outcome h) =
     (if cancelled c h then error h else case outcome of Inl err \<Rightarrow> Some err | Inr v \<Rightarrow> error h)"
  "abortControllerRef (executeRun_settle c outcome h) =
     (if abortControllerRef h = Some c then None else abortControllerRef h)"
  "isMountedRef (executeRun_settle c outcome h) = isMountedRef h"
  "aborted (executeRun_settle c outcome h) = aborted h"
  "controllers (executeRun_settle c outcome h) = controllers h"
  "awaiting (executeRun_settle c outcome h) = removeAll c (awaiting h)"
  "callbacks (executeRun_settle c outcome h) =
     callbacks h @ (case outcome of Inl err \<Rightarrow> if cancelled c h then [] else [OnError c err] | Inr v \<Rightarrow> [])
       @ [OnFinally c]"
  by (simp_all add: executeRun_settle_def executeRun_finally_def split: sum.splits)

lemma cancel_fields:
  "status (cancel h) = Cancelled"
  "result (cancel h) = result h"
  "error (cancel h) = error h"
  "abortControllerRef (cancel h) = None"
  "isMountedRef (cancel h) = isMountedRef h"
  "set (aborted (cancel h)) = set (aborted h) \<union> set_option (abortControllerRef h)"
  "controllers (cancel h) = controllers h"
  "awaiting (cancel h) = awaiting h"
  "callbacks (cancel h) = callbacks h"
  by (simp_all add: cancel_def abort_current_fields)

lemma unmount_fields:
  "status (unmount h) = status h"
  "result (unmount h) = result h"
  "error (unmount h) = error h"
  "abortControllerRef (unmount h) = None"
  "isMountedRef (unmount h) = False"
  "set (aborted (unmount h)) = set (aborted h) \<union> set_option (abortControllerRef h)"
  "controllers (unmount h) = controllers h"
  "awaiting (unmount h) = awaiting h"
  "callbacks (unmount h) = callbacks h"
  by (simp_all add: unmount_def abort_current_fields)

lemma mount_fields:
  "status (mount h) = status h"
  "result (mount h) = result h"
  "error (mount h) = error h"
  "abortControllerRef (mount h) = abortControllerRef h"
  "isMountedRef (mount h) = True"
  "aborted (mount h) = aborted h"
  "controllers (mount h) = controllers h"
  "awaiting (mount h) = awaiting h"
  "callbacks (mount h) = callbacks h"
  by (simp_all add: mount_def)

lemmas flow_fields = abort_current_fields executeRun_start_fields executeRun_settle_fields
  cancel_fields unmount_fields mount_fields

lemma tokens_ok_init: "tokens_ok useAsyncFlow"
  by (simp add: tokens_ok_def useAsyncFlow_def)

lemma live_unique:
  "tokens_ok h \<Longrightarrow> c \<in> set (awaiting h) \<Longrightarrow> c \<notin> set (aborted h) \<Longrightarrow>
   c' \<in> set (awaiting h) \<Longrightarrow> c' \<notin> set (aborted h) \<Longrightarrow> c' = c"
  unfolding tokens_ok_def by (metis option.inject)

lemma tokens_ok_start: "tokens_ok h \<Longrightarrow> tokens_ok (snd (executeRun_start h))"
  unfolding tokens_ok_def
proof (intro conjI ballI impI)
  fix c
  assume h: "(\<forall>c\<in>set (awaiting h). c < controllers h) \<and>
     (\<forall>c\<in>set (awaiting h). c \<notin> set (aborted h) \<longrightarrow> abortControllerRef h = Some c)"
    and c: "c \<in> set (awaiting (snd (executeRun_start h)))"
  from c have c': "c \<in> set (awaiting h) \<or> c = controllers h"
    by (auto simp: executeRun_start_fields)
  with h show "c < controllers (snd (executeRun_start h))"
    by (auto simp: executeRun_start_fields less_Suc_eq)
  assume "c \<notin> set (aborted (snd (executeRun_start h)))"
  then have n: "c \<notin> set (aborted h)" "abortControllerRef h \<noteq> Some c"
    by (auto simp: executeRun_start_fields)
  with h c' have "c = controllers h" by blast
  then show "abortControllerRef (snd (executeRun_start h)) = Some c"
    by (simp add: executeRun_start_fields)
qed

lemma tokens_ok_settle: "tokens_ok h \<Longrightarrow> tokens_ok (executeRun_settle c outcome h)"
  unfolding tokens_ok_def
proof (intro conjI ballI impI)
  fix c'
  assume h: "(\<forall>c\<in>set (awaiting h). c < controllers h) \<and>
     (\<forall>c\<in>set (awaiting h). c \<notin> set (aborted h) \<longrightarrow> abortControllerRef h = Some c)"
    and c: "c' \<in> set (awaiting (executeRun_settle c outcome h))"
  from c have c': "c' \<in> set (awaiting h)" "c' \<noteq> c"
    by (auto simp: executeRun_settle_fields)
  with h show "c' < controllers (executeRun_settle c outcome h)"
    by (auto simp: executeRun_settle_fields)
  assume "c' \<notin> set (aborted (executeRun_settle c outcome h))"
  then have "c' \<notin> set (aborted h)"
    by (simp add: executeRun_settle_fields)
  with h c' have "abortControllerRef h = Some c'" by blast
  with c' show "abortControllerRef (executeRun_settle c outcome h) = Some c'"
    by (simp add: executeRun_settle_fields)
qed

lemma tokens_ok_abort:
  assumes "tokens_ok h"
    and "awaiting h' = awaiting h" and "controllers h' = controllers h"
    and "set (aborted h') = set (aborted h) \<union> set_option (abortControllerRef h)"
  shows "tokens_ok h'"
  unfolding tokens_ok_def
proof (intro conjI ballI impI)
  fix c
  assume c: "c \<in> set (awaiting h')"
  with assms show "c < controllers h'" by (simp add: tokens_ok_def)
  assume "c \<notin> set (aborted h')"
  with assms(4) have "c \<notin> set (aborted h)" "abortControllerRef h \<noteq> Some c" by auto
  with assms(1,2) c have False unfolding tokens_ok_def by metis
  then show "abortControllerRef h' = Some c" ..
qed

lemma tokens_ok_step: "tokens_ok h \<Longrightarrow> tokens_ok (step a h)"
proof (cases a)
  case DoRun
  assume "tokens_ok h"
  then show ?thesis unfolding DoRun by (simp add: tokens_ok_start)
next
  case (DoSettle c outcome)
  assume "tokens_ok h"
  then show ?thesis unfolding DoSettle by (simp add: tokens_ok_settle)
next
  case DoCancel
  assume "tokens_ok h"
  then show ?thesis unfolding DoCancel by (simp add: tokens_ok_abort[of h] cancel_fields)
next
  case DoMount
  assume "tokens_ok h"
  then show ?thesis unfolding DoMount by (simp add: tokens_ok_def mount_fields)
next
  case DoUnmount
  assume "tokens_ok h"
  then show ?thesis unfolding DoUnmount by (simp add: tokens_ok_abort[of h] unmount_fields)
next
  case DoCleanup
  assume "tokens_ok h"
  then show ?thesis unfolding DoCleanup by (simp add: tokens_ok_abort[of h] deps_cleanup_def abort_current_fields)
qed

lemma data_ok_weaken:
  assumes "data_ok h"
    and "result h' = result h" and "error h' = error h"
    and "set (awaiting h') \<subseteq> set (awaiting h)" and "set (aborted h) \<subseteq> set (aborted h')"
    and "status h' = status h \<or> status h' = Cancelled"
  shows "data_ok h'"
proof -
  have live: "\<exists>c\<in>set (awaiting h). c \<notin> set (aborted h)"
    if "\<exists>c\<in>set (awaiting h'). c \<notin> set (aborted h')"
    using that assms(4,5) by blast
  from assms(6) show ?thesis
  proof
    assume "status h' = status h"
    with assms(1,2,3) live show ?thesis unfolding data_ok_def by metis
  next
    assume "status h' = Cancelled"
    with assms(1,2,3) live show ?thesis unfolding data_ok_def by simp
  qed
qed

lemma data_ok_start: "data_ok (snd (executeRun_start h))"
  by (simp add: data_ok_def executeRun_start_fields)

lemma data_ok_settle:
  assumes "tokens_ok h" and "data_ok h" and "c \<in> set (awaiting h)"
  shows "data_ok (executeRun_settle c outcome h)"
proof (cases "cancelled c h")
  case True
  show ?thesis
    by (rule data_ok_weaken[OF assms(2)]) (auto simp: executeRun_settle_fields True)
next
  case False
  then have live: "c \<notin> set (aborted h)" by (simp add: cancelled_def)
  with assms(2,3) have none: "result h = None" "error h = None"
    unfolding data_ok_def by blast+
  have dead: "\<not> (\<exists>c'\<in>set (awaiting (executeRun_settle c outcome h)). c' \<notin> set (aborted (executeRun_settle c outcome h)))"
    using live_unique[OF assms(1,3) live] by (auto simp: executeRun_settle_fields)
  show ?thesis
    unfolding data_ok_def
    using dead none False by (cases outcome) (simp_all add: executeRun_settle_fields)
qed

lemma data_ok_step: "tokens_ok h \<Longrightarrow> data_ok h \<Longrightarrow> data_ok (step a h)"
proof (cases a)
  case DoRun
  show ?thesis unfolding DoRun by (simp add: data_ok_start)
next
  case (DoSettle c outcome)
  assume "tokens_ok h" "data_ok h"
  then show ?thesis unfolding DoSettle by (simp add: data_ok_settle)
next
  case DoCancel
  assume "data_ok h"
  then show ?thesis unfolding DoCancel step.simps
    by (rule data_ok_weaken) (auto simp: cancel_fields)
next
  case DoMount
  assume "data_ok h"
  then show ?thesis unfolding DoMount step.simps
    by (rule data_ok_weaken) (auto simp: mount_fields)
next
  case DoUnmount
  assume "data_ok h"
  then show ?thesis unfolding DoUnmount step.simps
    by (rule data_ok_weaken) (auto simp: unmount_fields)
next
  case DoCleanup
  assume "data_ok h"
  then show ?thesis unfolding DoCleanup step.simps deps_cleanup_def
    by (rule data_ok_weaken) (auto simp: abort_current_fields)
qed

lemma finally_ok_same:
  assumes "finally_ok h"
    and "callbacks h' = callbacks h" and "controllers h' = controllers h" and "awaiting h' = awaiting h"
  shows "finally_ok h'"
  using assms by (simp add: finally_ok_def)

lemma finally_ok_start: "tokens_ok h \<Longrightarrow> finally_ok h \<Longrightarrow> finally_ok (snd (executeRun_start h))"
  unfolding finally_ok_def tokens_ok_def
  by (auto simp: executeRun_start_fields less_Suc_eq)

lemma count_OnFinally_settle:
  "count_list (callbacks (executeRun_settle c outcome h)) (OnFinally c') =
     count_list (callbacks h) (OnFinally c') + (if c' = c then 1 else 0)"
  by (cases outcome) (simp_all add: executeRun_settle_fields)

lemma finally_ok_settle:
  assumes "tokens_ok h" and "finally_ok h" and "c \<in> set (awaiting h)"
  shows "finally_ok (executeRun_settle c outcome h)"
proof -
  from assms(1,3) have "c < controllers h" by (simp add: tokens_ok_def)
  with assms(2,3) show ?thesis
    unfolding finally_ok_def count_OnFinally_settle
    by (simp add: executeRun_settle_fields)
qed

lemma finally_ok_step: "tokens_ok h \<Longrightarrow> finally_ok h \<Longrightarrow> finally_ok (step a h)"
proof (cases a)
  case DoRun
  assume "tokens_ok h" "finally_ok h"
  then show ?thesis unfolding DoRun by (simp add: finally_ok_start)
next
  case (DoSettle c outcome)
  assume "tokens_ok h" "finally_ok h"
  then show ?thesis unfolding DoSettle by (simp add: finally_ok_settle)
next
  case DoCancel
  assume "finally_ok h"
  then show ?thesis unfolding DoCancel step.simps
    by (rule finally_ok_same) (simp_all add: cancel_fields)
next
  case DoMount
  assume "finally_ok h"
  then show ?thesis unfolding DoMount step.simps
    by (rule finally_ok_same) (simp_all add: mount_fields)
next
  case DoUnmount
  assume "finally_ok h"
  then show ?thesis unfolding DoUnmount step.simps
    by (rule finally_ok_same) (simp_all add: unmount_fields)
next
  case DoCleanup
  assume "finally_ok h"
  then show ?thesis unfolding DoCleanup step.simps deps_cleanup_def
    by (rule finally_ok_same) (simp_all add: abort_current_fields)
qed

lemma reachable_ok_init: "reachable_ok useAsyncFlow"
  by (simp add: reachable_ok_def tokens_ok_def data_ok_def finally_ok_def useAsyncFlow_def)

lemma reachable_ok_run: "reachable_ok h \<Longrightarrow> reachable_ok (run_actions acts h)"
  unfolding run_actions_def
  by (induction acts arbitrary: h)
    (simp_all add: reachable_ok_def tokens_ok_step data_ok_step finally_ok_step)

lemma run_actions_append: "run_actions (xs @ ys) h = run_actions ys (run_actions xs h)"
  by (simp add: run_actions_def)

lemma run_actions_Cons: "run_actions (a # ys) h = run_actions ys (step a h)"
  by (simp add: run_actions_def)

lemma aborted_step: "set (aborted h) \<subseteq> set (aborted (step a h))"
  by (cases a) (auto simp: flow_fields deps_cleanup_def)

lemma aborted_run: "set (aborted h) \<subseteq> set (aborted (run_actions acts h))"
proof (induction acts arbitrary: h)
  case Nil
  show ?case by (simp add: run_actions_def)
next
  case (Cons a acts)
  from aborted_step[of h a] Cons[of "step a h"] show ?case
    unfolding run_actions_Cons by blast
qed

lemma fired_by_cancel_or_run:
  assumes "tokens_ok h" and "c \<in> set (awaiting h)" and "a = DoCancel \<or> a = DoRun"
  shows "c \<in> set (aborted (step a h))"
proof (cases "c \<in> set (aborted h)")
  case True
  with aborted_step[of h a] show ?thesis by blast
next
  case False
  with assms(1,2) have "abortControllerRef h = Some c" by (simp add: tokens_ok_def)
  with assms(3) show ?thesis by (auto simp: flow_fields)
qed

text \<open>\<^bold>\<open>C1\<close>, as the code has it. The \<^verbatim>\<open>catch\<close> branch asks \<^verbatim>\<open>context.cancelled()\<close>, which is
  \<^verbatim>\<open>signal.aborted || !isMountedRef.current\<close>: the token and the mount flag, never the error.
  When the task rejects, the run's token has not been fired and the component is mounted,
  the status becomes \<open>Error\<close>, the error is recorded as thrown (whatever its message,
  \<^verbatim>\<open>"aborted"\<close> included) and handed to \<^verbatim>\<open>onError\<close>. With the token unfired but the component
  unmounted (a run started through a stale handle), the same rejection is classified
  \<open>Cancelled\<close>.\<close>

theorem unfired_mounted_rejection_is_error:
  assumes "c \<notin> set (aborted h)" and "isMountedRef h"
  shows "status (executeRun_settle c (Inl err) h) = Error
       \<and> error (executeRun_settle c (Inl err) h) = Some err
       \<and> callbacks (executeRun_settle c (Inl err) h) = callbacks h @ [OnError c err, OnFinally c]"
  using assms by (simp add: executeRun_settle_fields cancelled_def)

theorem unfired_mounted_rejection_is_error_witness:
  "status (executeRun_settle 0 (Inl (NewError ''aborted'')) (run_actions [DoRun] (useAsyncFlow :: nat flow))) = Error
   \<and> error (executeRun_settle 0 (Inl (NewError ''aborted'')) (run_actions [DoRun] (useAsyncFlow :: nat flow)))
       = Some (NewError ''aborted'')"
proof -
  have "0 \<notin> set (aborted (run_actions [DoRun] (useAsyncFlow :: nat flow)))"
    and "isMountedRef (run_actions [DoRun] (useAsyncFlow :: nat flow))"
    by (simp_all add: run_actions_def executeRun_start_fields useAsyncFlow_def)
  from unfired_mounted_rejection_is_error[OF this] show ?thesis by simp
qed

theorem unfired_unmounted_rejection_counterexample:
  "0 \<notin> set (aborted (run_actions [DoUnmount, DoRun] (useAsyncFlow :: nat flow)))
   \<and> 0 \<in> set (awaiting (run_actions [DoUnmount, DoRun] (useAsyncFlow :: nat flow)))
   \<and> status (run_actions [DoUnmount, DoRun, DoSettle 0 (Inl (NewError ''aborted''))] (useAsyncFlow :: nat flow))
       = Cancelled
   \<and> error (run_actions [DoUnmount, DoRun, DoSettle 0 (Inl (NewError ''aborted''))] (useAsyncFlow :: nat flow))
       = None
   \<and> callbacks (run_actions [DoUnmount, DoRun, DoSettle 0 (Inl (NewError ''aborted''))] (useAsyncFlow :: nat flow))
       = [OnFinally 0]"
  by (simp add: run_actions_def flow_fields cancelled_def useAsyncFlow_def)

text \<open>\<^bold>\<open>C2\<close>, as the code has it. In every state the hook can reach, \<open>result\<close> is present
  only when the status is \<open>Success\<close> or \<open>Cancelled\<close>, and \<open>error\<close> only when it is \<open>Error\<close> or
  \<open>Cancelled\<close>. \<^verbatim>\<open>cancel()\<close> and a settlement classified as cancelled write neither cell: they
  leave what an earlier run stored, so after \<^verbatim>\<open>cancel()\<close> on a finished run the status is
  \<open>Cancelled\<close> with the result still present. \<^verbatim>\<open>cancel()\<close> while the status is \<open>Running\<close> leaves
  both cells empty.\<close>

theorem result_error_only_with_status:
  "(result (run_actions acts (useAsyncFlow :: 'v flow)) \<noteq> None \<longrightarrow>
      status (run_actions acts useAsyncFlow) = Success \<or> status (run_actions acts useAsyncFlow) = Cancelled)
   \<and> (error (run_actions acts useAsyncFlow) \<noteq> None \<longrightarrow>
      status (run_actions acts useAsyncFlow) = Error \<or> status (run_actions acts useAsyncFlow) = Cancelled)
   \<and> (status (run_actions acts useAsyncFlow) = Running \<longrightarrow>
      result (cancel (run_actions acts useAsyncFlow)) = None \<and> error (cancel (run_actions acts useAsyncFlow)) = None)
   \<and> result (cancel h) = result h \<and> error (cancel h) = error h
   \<and> (cancelled c h \<longrightarrow>
        result (executeRun_settle c outcome h) = result h \<and> error (executeRun_settle c outcome h) = error h)"
proof -
  have "reachable_ok (run_actions acts (useAsyncFlow :: 'v flow))"
    by (rule reachable_ok_run[OF reachable_ok_init])
  then have "data_ok (run_actions acts (useAsyncFlow :: 'v flow))"
    by (simp add: reachable_ok_def)
  then show ?thesis
    unfolding data_ok_def
    by (cases "status (run_actions acts (useAsyncFlow :: 'v flow))")
      (auto simp: cancel_fields executeRun_settle_fields)
qed

theorem result_error_only_with_status_witness:
  "status (run_actions [DoRun, DoSettle 0 (Inr (7::nat))] useAsyncFlow) = Success
   \<and> status (run_actions [DoRun, DoSettle 0 (Inl (NewError ''boom''))] (useAsyncFlow :: nat flow)) = Error
   \<and> result (cancel (run_actions [DoRun] (useAsyncFlow :: nat flow))) = None
   \<and> result (executeRun_settle 0 (Inr (7::nat)) (run_actions [DoRun, DoCancel] useAsyncFlow)) = None"
proof -
  have 1: "result (run_actions [DoRun, DoSettle 0 (Inr (7::nat))] useAsyncFlow) \<noteq> None"
    "status (run_actions [DoRun, DoSettle 0 (Inr (7::nat))] useAsyncFlow) \<noteq> Cancelled"
    by (simp_all add: run_actions_def flow_fields cancelled_def useAsyncFlow_def)
  have 2: "error (run_actions [DoRun, DoSettle 0 (Inl (NewError ''boom''))] (useAsyncFlow :: nat flow)) \<noteq> None"
    "status (run_actions [DoRun, DoSettle 0 (Inl (NewError ''boom''))] (useAsyncFlow :: nat flow)) \<noteq> Cancelled"
    by (simp_all add: run_actions_def flow_fields cancelled_def useAsyncFlow_def)
  have 3: "status (run_actions [DoRun] (useAsyncFlow :: nat flow)) = Running"
    by (simp add: run_actions_def flow_fields)
  have 4: "cancelled 0 (run_actions [DoRun, DoCancel] (useAsyncFlow :: nat flow))"
    "result (run_actions [DoRun, DoCancel] (useAsyncFlow :: nat flow)) = None"
    by (simp_all add: run_actions_def flow_fields cancelled_def useAsyncFlow_def)
  from result_error_only_with_status[of "[DoRun, DoSettle 0 (Inr (7::nat))]"] 1
  have a: "status (run_actions [DoRun, DoSettle 0 (Inr (7::nat))] useAsyncFlow) = Success" by blast
  from result_error_only_with_status[of "[DoRun, DoSettle 0 (Inl (NewError ''boom''))] :: nat action list"] 2
  have b: "status (run_actions [DoRun, DoSettle 0 (Inl (NewError ''boom''))] (useAsyncFlow :: nat flow)) = Error"
    by blast
  from result_error_only_with_status[of "[DoRun] :: nat action list"] 3
  have c: "result (cancel (run_actions [DoRun] (useAsyncFlow :: nat flow))) = None" by blast
  from result_error_only_with_status[where acts="[] :: nat action list" and c=0
      and h="run_actions [DoRun, DoCancel] useAsyncFlow" and outcome="Inr (7::nat)"] 4
  have d: "result (executeRun_settle 0 (Inr (7::nat)) (run_actions [DoRun, DoCancel] useAsyncFlow)) = None"
    by simp
  from a b c d show ?thesis by blast
qed

theorem result_kept_after_cancel_counterexample:
  "status (run_actions [DoRun, DoSettle 0 (Inr (7::nat)), DoCancel] useAsyncFlow) = Cancelled
   \<and> result (run_actions [DoRun, DoSettle 0 (Inr (7::nat)), DoCancel] useAsyncFlow) = Some 7"
  by (simp add: run_actions_def flow_fields cancelled_def useAsyncFlow_def)

text \<open>\<^bold>\<open>C8\<close>. Take a run \<open>c\<close> that is suspended in some reachable state, then \<^verbatim>\<open>cancel()\<close> or
  a new run, then any further actions after which \<open>c\<close> is still suspended. The token of \<open>c\<close>
  is fired, and whatever its task settles with, the settlement sets the status to
  \<open>Cancelled\<close>, leaves \<open>result\<close> and \<open>error\<close> as they are, calls \<^verbatim>\<open>onFinally\<close> only, and \<^verbatim>\<open>run()\<close>
  resolves with \<^verbatim>\<open>undefined\<close>.\<close>

theorem late_settlement_stays_cancelled:
  assumes "c \<in> set (awaiting (run_actions before useAsyncFlow))"
    and "a = DoCancel \<or> a = DoRun"
    and "h = run_actions (before @ a # after) useAsyncFlow"
    and "c \<in> set (awaiting h)"
  shows "c \<in> set (aborted h)
       \<and> status (step (DoSettle c outcome) h) = Cancelled
       \<and> result (step (DoSettle c outcome) h) = result h
       \<and> error (step (DoSettle c outcome) h) = error h
       \<and> callbacks (step (DoSettle c outcome) h) = callbacks h @ [OnFinally c]
       \<and> executeRun_value c outcome h = None"
proof -
  let ?h0 = "run_actions before useAsyncFlow"
  have "reachable_ok ?h0"
    by (rule reachable_ok_run[OF reachable_ok_init])
  then have "tokens_ok ?h0"
    by (simp add: reachable_ok_def)
  from fired_by_cancel_or_run[OF this assms(1,2)] have "c \<in> set (aborted (step a ?h0))" .
  with aborted_run[of "step a ?h0" after] have fired: "c \<in> set (aborted h)"
    unfolding assms(3) run_actions_append run_actions_Cons by blast
  then have "cancelled c h"
    by (simp add: cancelled_def)
  with assms(4) fired show ?thesis
    by (cases outcome) (simp_all add: executeRun_settle_fields executeRun_value_def)
qed

theorem late_settlement_stays_cancelled_witness:
  "status (run_actions [DoRun, DoCancel, DoSettle 0 (Inr (7::nat))] useAsyncFlow) = Cancelled
   \<and> result (run_actions [DoRun, DoCancel, DoSettle 0 (Inr (7::nat))] useAsyncFlow) = None
   \<and> status (run_actions [DoRun, DoRun, DoSettle 0 (Inl (NewError ''late''))] (useAsyncFlow :: nat flow)) = Cancelled
   \<and> error (run_actions [DoRun, DoRun, DoSettle 0 (Inl (NewError ''late''))] (useAsyncFlow :: nat flow)) = None"
proof -
  have 1: "0 \<in> set (awaiting (run_actions [DoRun] (useAsyncFlow :: nat flow)))"
    by (simp add: run_actions_def executeRun_start_fields useAsyncFlow_def)
  have 2: "0 \<in> set (awaiting (run_actions ([DoRun] @ DoCancel # []) (useAsyncFlow :: nat flow)))"
    "result (run_actions ([DoRun] @ DoCancel # []) (useAsyncFlow :: nat flow)) = None"
    by (simp_all add: run_actions_def flow_fields useAsyncFlow_def)
  have 3: "0 \<in> set (awaiting (run_actions ([DoRun] @ DoRun # []) (useAsyncFlow :: nat flow)))"
    "error (run_actions ([DoRun] @ DoRun # []) (useAsyncFlow :: nat flow)) = None"
    by (simp_all add: run_actions_def flow_fields useAsyncFlow_def)
  have s: "\<And>acts a (h :: nat flow). run_actions (acts @ [a]) h = step a (run_actions acts h)"
    by (simp add: run_actions_def)
  from late_settlement_stays_cancelled[OF 1 _ refl 2(1), where outcome="Inr 7"] 2(2)
  have a: "status (run_actions [DoRun, DoCancel, DoSettle 0 (Inr (7::nat))] useAsyncFlow) = Cancelled
   \<and> result (run_actions [DoRun, DoCancel, DoSettle 0 (Inr (7::nat))] useAsyncFlow) = None"
    using s[of "[DoRun, DoCancel]"] by simp
  from late_settlement_stays_cancelled[OF 1 _ refl 3(1), where outcome="Inl (NewError ''late'')"] 3(2)
  have b: "status (run_actions [DoRun, DoRun, DoSettle 0 (Inl (NewError ''late''))] (useAsyncFlow :: nat flow)) = Cancelled
   \<and> error (run_actions [DoRun, DoRun, DoSettle 0 (Inl (NewError ''late''))] (useAsyncFlow :: nat flow)) = None"
    using s[of "[DoRun, DoRun]"] by simp
  from a b show ?thesis by blast
qed

text \<open>\<^bold>\<open>C9\<close>. A settlement calls \<^verbatim>\<open>onError\<close> (with the error) exactly when it classifies the
  run as \<open>Error\<close>, that is on a rejection of a run that is not cancelled, and then
  \<^verbatim>\<open>onFinally\<close>, once, in every branch. Over any sequence of actions \<^verbatim>\<open>onFinally\<close> has been
  called once for every run that has settled, and not for a run that is still suspended
  or was never started.\<close>

theorem callbacks_of_a_settlement:
  "callbacks (executeRun_settle c outcome h) =
     callbacks h
     @ (case outcome of
          Inl err \<Rightarrow> if status (executeRun_settle c outcome h) = Error then [OnError c err] else []
        | Inr v \<Rightarrow> [])
     @ [OnFinally c]
   \<and> (status (executeRun_settle c outcome h) = Error) = (isl outcome \<and> \<not> cancelled c h)
   \<and> (status (executeRun_settle c outcome h) = Cancelled) = cancelled c h
   \<and> (status (executeRun_settle c outcome h) = Success) = (\<not> isl outcome \<and> \<not> cancelled c h)
   \<and> count_list (callbacks (run_actions acts (useAsyncFlow :: 'v flow))) (OnFinally k) =
       (if k < controllers (run_actions acts (useAsyncFlow :: 'v flow))
           \<and> k \<notin> set (awaiting (run_actions acts (useAsyncFlow :: 'v flow)))
        then 1 else 0)"
proof -
  have "reachable_ok (run_actions acts (useAsyncFlow :: 'v flow))"
    by (rule reachable_ok_run[OF reachable_ok_init])
  then have "finally_ok (run_actions acts (useAsyncFlow :: 'v flow))"
    by (simp add: reachable_ok_def)
  then have "count_list (callbacks (run_actions acts (useAsyncFlow :: 'v flow))) (OnFinally k) =
       (if k < controllers (run_actions acts (useAsyncFlow :: 'v flow))
           \<and> k \<notin> set (awaiting (run_actions acts (useAsyncFlow :: 'v flow)))
        then 1 else 0)"
    unfolding finally_ok_def by blast
  then show ?thesis
    by (cases outcome) (simp_all add: executeRun_settle_fields)
qed

theorem callbacks_of_a_settlement_witness:
  "callbacks (executeRun_settle 0 (Inl (NewError ''boom'')) (run_actions [DoRun] (useAsyncFlow :: nat flow)))
     = [OnError 0 (NewError ''boom''), OnFinally 0]
   \<and> callbacks (executeRun_settle 0 (Inl (NewError ''boom'')) (run_actions [DoRun, DoCancel] (useAsyncFlow :: nat flow)))
     = [OnFinally 0]
   \<and> count_list (callbacks (run_actions [DoRun, DoRun, DoSettle 0 (Inr 1)] (useAsyncFlow :: nat flow))) (OnFinally 0) = 1
   \<and> count_list (callbacks (run_actions [DoRun, DoRun, DoSettle 0 (Inr 1)] (useAsyncFlow :: nat flow))) (OnFinally 1) = 0"
proof -
  let ?h1 = "run_actions [DoRun] (useAsyncFlow :: nat flow)"
  let ?h2 = "run_actions [DoRun, DoCancel] (useAsyncFlow :: nat flow)"
  let ?h3 = "run_actions [DoRun, DoRun, DoSettle 0 (Inr 1)] (useAsyncFlow :: nat flow)"
  have 1: "\<not> cancelled 0 ?h1" "callbacks ?h1 = []"
    by (simp_all add: run_actions_def flow_fields cancelled_def useAsyncFlow_def)
  have 2: "cancelled 0 ?h2" "callbacks ?h2 = []"
    by (simp_all add: run_actions_def flow_fields cancelled_def useAsyncFlow_def)
  have 3: "controllers ?h3 = 2" "awaiting ?h3 = [1]"
    by (simp_all add: run_actions_def flow_fields cancelled_def useAsyncFlow_def)
  from callbacks_of_a_settlement[of 0 "Inl (NewError ''boom'')" ?h1 "[]" 0] 1
  have a: "callbacks (executeRun_settle 0 (Inl (NewError ''boom'')) ?h1) = [OnError 0 (NewError ''boom''), OnFinally 0]"
    by auto
  from callbacks_of_a_settlement[of 0 "Inl (NewError ''boom'')" ?h2 "[]" 0] 2
  have b: "callbacks (executeRun_settle 0 (Inl (NewError ''boom'')) ?h2) = [OnFinally 0]"
    by auto
  from callbacks_of_a_settlement[of 0 "Inr (1::nat)" ?h1 "[DoRun, DoRun, DoSettle 0 (Inr (1::nat))]" 0] 3
  have c: "count_list (callbacks ?h3) (OnFinally 0) = 1"
    by simp
  from callbacks_of_a_settlement[of 0 "Inr (1::nat)" ?h1 "[DoRun, DoRun, DoSettle 0 (Inr (1::nat))]" 1] 3
  have d: "count_list (callbacks ?h3) (OnFinally 1) = 0"
    by simp
  from a b c d show ?thesis by blast
qed

end
